theory Spec2Isabelle
  imports Main "HOL-Library.Word"
begin

section \<open>JavaScript strings\<close>

text \<open>
  A JavaScript string is a sequence of UTF-16 code units; \<open>length\<close>, \<open>slice\<close>,
  \<open>trim\<close> and the regular expression class \<open>\s\<close> all work on code units. Numbers that
  hold counts and millisecond timestamps are modelled as \<open>int\<close> (\<open>Math.floor\<close> is the
  identity on them).
\<close>

type_synonym jschar = "16 word"
type_synonym jsstring = "jschar list"

definition js :: "string \<Rightarrow> jsstring" where
  "js s = map of_char s"

definition LF :: jsstring where
  "LF = [0x0A]"

text \<open>ECMAScript WhiteSpace and LineTerminator code points: what \<open>trim\<close> strips and \<open>\s\<close> matches.\<close>

definition isWhiteSpace :: "jschar \<Rightarrow> bool" where
  "isWhiteSpace c \<longleftrightarrow>
     c = 0x09 \<or> c = 0x0A \<or> c = 0x0B \<or> c = 0x0C \<or> c = 0x0D \<or> c = 0x20 \<or> c = 0xA0 \<or>
     c = 0x1680 \<or> (0x2000 \<le> c \<and> c \<le> 0x200A) \<or> c = 0x2028 \<or> c = 0x2029 \<or>
     c = 0x202F \<or> c = 0x205F \<or> c = 0x3000 \<or> c = 0xFEFF"

definition trimStart :: "jsstring \<Rightarrow> jsstring" where
  "trimStart s = dropWhile isWhiteSpace s"

definition trimEnd :: "jsstring \<Rightarrow> jsstring" where
  "trimEnd s = rev (dropWhile isWhiteSpace (rev s))"

definition trim :: "jsstring \<Rightarrow> jsstring" where
  "trim s = trimEnd (trimStart s)"

text \<open>\<open>text.replace(/\s+/g, " ")\<close>: every maximal run of white space becomes one space.\<close>

function collapseWhitespace :: "jsstring \<Rightarrow> jsstring" where
  "collapseWhitespace [] = []"
| "collapseWhitespace (c # cs) =
     (if isWhiteSpace c then 0x20 # collapseWhitespace (dropWhile isWhiteSpace cs)
      else c # collapseWhitespace cs)"
  by pat_completeness auto
termination
  by (relation "measure length") (auto simp: length_dropWhile_le less_Suc_eq_le)

text \<open>\<open>Array.prototype.join\<close>.\<close>

fun joinWith :: "jsstring \<Rightarrow> jsstring list \<Rightarrow> jsstring" where
  "joinWith sep [] = []"
| "joinWith sep [x] = x"
| "joinWith sep (x # y # ys) = x @ sep @ joinWith sep (y # ys)"

text \<open>Decimal rendering of an integer inside a template literal.\<close>

definition digitChar :: "nat \<Rightarrow> jschar" where
  "digitChar d = of_nat (48 + d)"

fun showNat :: "nat \<Rightarrow> jsstring" where
  "showNat n = (if n < 10 then [digitChar n] else showNat (n div 10) @ [digitChar (n mod 10)])"

definition showInt :: "int \<Rightarrow> jsstring" where
  "showInt i = (if i < 0 then js ''-'' @ showNat (nat (- i)) else showNat (nat i))"

text \<open>Truthiness of an optional string: \<open>undefined\<close> and the empty string are falsy.\<close>

definition truthy :: "jsstring option \<Rightarrow> bool" where
  "truthy v = (case v of None \<Rightarrow> False | Some s \<Rightarrow> s \<noteq> [])"

section \<open>The announce queue: data\<close>

record AnnounceQueueItem =
  prompt :: jsstring
  summaryLine :: "jsstring option"
  enqueuedAt :: int
  sessionKey :: jsstring
  originatingChannel :: "jsstring option"
  originatingTo :: "jsstring option"
  originatingAccountId :: "jsstring option"

text \<open>
  \<open>QueueMode\<close> and \<open>QueueDropPolicy\<close> are string unions declared outside this file; the
  queue only compares them with the literals \<open>"collect"\<close>, \<open>"new"\<close> and \<open>"summarize"\<close>, so
  they stay strings here.
\<close>

type_synonym QueueMode = jsstring
type_synonym QueueDropPolicy = jsstring

record AnnounceQueueState =
  items :: "AnnounceQueueItem list"
  draining :: bool
  lastEnqueuedAt :: int
  mode :: QueueMode
  debounceMs :: int
  cap :: int
  dropPolicy :: QueueDropPolicy
  droppedCount :: int
  summaryLines :: "jsstring list"

text \<open>The \<open>settings\<close> argument of \<open>getAnnounceQueue\<close> and \<open>enqueueAnnounce\<close>.\<close>

record QueueSettings =
  mode_s :: QueueMode
  debounceMs_s :: "int option"
  cap_s :: "int option"
  dropPolicy_s :: "QueueDropPolicy option"

text \<open>The process-wide \<open>ANNOUNCE_QUEUES\<close> map.\<close>

type_synonym QueueStore = "jsstring \<rightharpoonup> AnnounceQueueState"

section \<open>Admission\<close>

text \<open>
  \<open>getAnnounceQueue\<close> returns the queue object stored under the key after the call: the
  existing one with its settings overwritten in place, or a freshly created one.
  The caller below writes the object back into the store, which stands for both
  \<open>ANNOUNCE_QUEUES.set(key, created)\<close> and the in-place mutation of an existing object.
\<close>

definition getAnnounceQueue :: "QueueStore \<Rightarrow> jsstring \<Rightarrow> QueueSettings \<Rightarrow> AnnounceQueueState" where
  "getAnnounceQueue ANNOUNCE_QUEUES key settings =
     (case ANNOUNCE_QUEUES key of
        Some existing \<Rightarrow>
          existing\<lparr>
            mode := mode_s settings,
            debounceMs := (case debounceMs_s settings of Some d \<Rightarrow> max 0 d | None \<Rightarrow> debounceMs existing),
            cap := (case cap_s settings of
                      Some c \<Rightarrow> if c > 0 then c else cap existing
                    | None \<Rightarrow> cap existing),
            dropPolicy := (case dropPolicy_s settings of Some p \<Rightarrow> p | None \<Rightarrow> dropPolicy existing)\<rparr>
      | None \<Rightarrow>
          \<lparr>items = [], draining = False, lastEnqueuedAt = 0,
           mode = mode_s settings,
           debounceMs = (case debounceMs_s settings of Some d \<Rightarrow> max 0 d | None \<Rightarrow> 1000),
           cap = (case cap_s settings of Some c \<Rightarrow> if c > 0 then c else 20 | None \<Rightarrow> 20),
           dropPolicy = (case dropPolicy_s settings of Some p \<Rightarrow> p | None \<Rightarrow> js ''summarize''),
           droppedCount = 0, summaryLines = []\<rparr>)"

definition elideText :: "jsstring \<Rightarrow> int \<Rightarrow> jsstring" where
  "elideText text limit =
     (if int (length text) \<le> limit then text
      else trimEnd (take (nat (max 0 (limit - 1))) text) @ [0x2026])"

definition buildQueueSummaryLine :: "AnnounceQueueItem \<Rightarrow> jsstring" where
  "buildQueueSummaryLine item =
     (let base = (if truthy (map_option trim (summaryLine item))
                  then trim (the (summaryLine item))
                  else trim (prompt item));
          cleaned = trim (collapseWhitespace base)
      in elideText cleaned 160)"

text \<open>The \<open>for\<close> loop over the evicted items.\<close>

fun summarizeDropped :: "AnnounceQueueItem list \<Rightarrow> AnnounceQueueState \<Rightarrow> AnnounceQueueState" where
  "summarizeDropped [] queue = queue"
| "summarizeDropped (droppedItem # rest) queue =
     summarizeDropped rest
       (queue\<lparr>droppedCount := droppedCount queue + 1,
              summaryLines := summaryLines queue @ [buildQueueSummaryLine droppedItem]\<rparr>)"

text \<open>
  \<open>while (queue.summaryLines.length > cap) queue.summaryLines.shift()\<close>. The loop is only
  reached with \<open>cap > 0\<close>, so it stops at the latest on the empty list.
\<close>

fun shiftSummaryLines :: "int \<Rightarrow> jsstring list \<Rightarrow> jsstring list" where
  "shiftSummaryLines cp [] = []"
| "shiftSummaryLines cp (l # ls) =
     (if int (length (l # ls)) > cp then shiftSummaryLines cp ls else l # ls)"

text \<open>
  \<open>enqueueAnnounce\<close>; \<open>now\<close> is the value of \<open>Date.now()\<close>. The result is the store after
  the call and the returned boolean.
\<close>

definition enqueueAnnounce ::
  "QueueStore \<Rightarrow> jsstring \<Rightarrow> AnnounceQueueItem \<Rightarrow> QueueSettings \<Rightarrow> int \<Rightarrow> QueueStore \<times> bool" where
  "enqueueAnnounce ANNOUNCE_QUEUES key item settings now =
     (let queue = (getAnnounceQueue ANNOUNCE_QUEUES key settings)\<lparr>lastEnqueuedAt := now\<rparr>;
          cp = cap queue
      in if cp > 0 \<and> int (length (items queue)) \<ge> cp then
           if dropPolicy queue = js ''new'' then (ANNOUNCE_QUEUES(key \<mapsto> queue), False)
           else
             let dropCount = nat (int (length (items queue)) - cp + 1);
                 dropped = take dropCount (items queue);
                 queue1 = queue\<lparr>items := drop dropCount (items queue)\<rparr>;
                 queue2 = (if dropPolicy queue1 = js ''summarize'' then
                             let q = summarizeDropped dropped queue1
                             in q\<lparr>summaryLines := shiftSummaryLines cp (summaryLines q)\<rparr>
                           else queue1)
             in (ANNOUNCE_QUEUES(key \<mapsto> queue2\<lparr>items := items queue2 @ [item]\<rparr>), True)
         else (ANNOUNCE_QUEUES(key \<mapsto> queue\<lparr>items := items queue @ [item]\<rparr>), True))"

section \<open>Payload construction\<close>

text \<open>
  \<open>buildSummaryPrompt\<close> returns the overflow notice (or \<open>undefined\<close>) and the queue as it
  leaves it: the dropped count and the summary lines are cleared when a notice is built.
\<close>

definition buildSummaryPrompt :: "AnnounceQueueState \<Rightarrow> jsstring option \<times> AnnounceQueueState" where
  "buildSummaryPrompt queue =
     (if dropPolicy queue \<noteq> js ''summarize'' \<or> droppedCount queue \<le> 0 then (None, queue)
      else
        let lines0 = [js ''[Queue overflow] Dropped '' @ showInt (droppedCount queue) @
                      js '' announce'' @ (if droppedCount queue = 1 then [] else js ''s'') @
                      js '' due to cap.''];
            lines1 = (if length (summaryLines queue) > 0
                      then lines0 @ [js ''Summary:''] @ map (\<lambda>line. js ''- '' @ line) (summaryLines queue)
                      else lines0)
        in (Some (joinWith LF lines1), queue\<lparr>droppedCount := 0, summaryLines := []\<rparr>))"

text \<open>The block of the item at (0-based) index \<open>idx\<close> in the combined prompt.\<close>

definition collectBlock :: "nat \<Rightarrow> AnnounceQueueItem \<Rightarrow> jsstring" where
  "collectBlock idx item =
     trim (js ''---'' @ LF @ js ''Queued #'' @ showInt (int idx + 1) @ LF @ prompt item)"

definition buildCollectPrompt :: "AnnounceQueueItem list \<Rightarrow> jsstring option \<Rightarrow> jsstring" where
  "buildCollectPrompt its summary =
     (let blocks0 = [js ''[Queued announce messages while agent was busy]''];
          blocks1 = (if truthy summary then blocks0 @ [the summary] else blocks0);
          blocks2 = blocks1 @ map (\<lambda>(idx, item). collectBlock idx item) (enumerate 0 its)
      in joinWith (LF @ LF) blocks2)"

section \<open>Cross-destination detection\<close>

definition orEmpty :: "jsstring option \<Rightarrow> jsstring" where
  "orEmpty v = (if truthy v then the v else [])"

definition destKey :: "AnnounceQueueItem \<Rightarrow> jsstring" where
  "destKey item =
     joinWith (js ''|'')
       [the (originatingChannel item), the (originatingTo item), orEmpty (originatingAccountId item)]"

text \<open>
  The loop of \<open>hasCrossChannelItems\<close> with its two locals: the set \<open>keys\<close> (a list without
  duplicates) and the flag \<open>hasUnkeyed\<close>.
\<close>

fun crossChannelLoop :: "AnnounceQueueItem list \<Rightarrow> jsstring list \<Rightarrow> bool \<Rightarrow> bool" where
  "crossChannelLoop [] keys hasUnkeyed =
     (if length keys = 0 then False else if hasUnkeyed then True else length keys > 1)"
| "crossChannelLoop (item # rest) keys hasUnkeyed =
     (if \<not> truthy (originatingChannel item) \<and> \<not> truthy (originatingTo item)
         \<and> \<not> truthy (originatingAccountId item)
      then crossChannelLoop rest keys True
      else if \<not> truthy (originatingChannel item) \<or> \<not> truthy (originatingTo item) then True
      else crossChannelLoop rest (List.insert (destKey item) keys) hasUnkeyed)"

definition hasCrossChannelItems :: "AnnounceQueueItem list \<Rightarrow> bool" where
  "hasCrossChannelItems its = crossChannelLoop its [] False"

section \<open>The drain\<close>

text \<open>
  The synchronous head of \<open>scheduleAnnounceDrain\<close>: the guard and the draining flag. The
  boolean tells whether the asynchronous drain body is started.
\<close>

definition scheduleAnnounceDrain :: "QueueStore \<Rightarrow> jsstring \<Rightarrow> QueueStore \<times> bool" where
  "scheduleAnnounceDrain ANNOUNCE_QUEUES key =
     (case ANNOUNCE_QUEUES key of
        None \<Rightarrow> (ANNOUNCE_QUEUES, False)
      | Some queue \<Rightarrow>
          if draining queue then (ANNOUNCE_QUEUES, False)
          else (ANNOUNCE_QUEUES(key \<mapsto> queue\<lparr>draining := True\<rparr>), True))"

text \<open>The loop condition of the drain.\<close>

definition drainPending :: "AnnounceQueueState \<Rightarrow> bool" where
  "drainPending queue \<longleftrightarrow> length (items queue) > 0 \<or> droppedCount queue > 0"

text \<open>
  One pass of the loop body after the debounce wait, up to the call of \<open>sendAnnounce\<close>:
  the pass either breaks out of the loop or hands one item to the transport. The pass
  takes and returns the local \<open>forceIndividualCollect\<close>.
\<close>

datatype PassResult = Break | Send AnnounceQueueItem

text \<open>\<open>const next = queue.items.shift(); if (!next) break; await sendAnnounce(next)\<close>.\<close>

definition shiftAndSend :: "bool \<Rightarrow> AnnounceQueueState \<Rightarrow> PassResult \<times> bool \<times> AnnounceQueueState" where
  "shiftAndSend force queue =
     (case items queue of
        [] \<Rightarrow> (Break, force, queue)
      | next # rest \<Rightarrow> (Send next, force, queue\<lparr>items := rest\<rparr>))"

definition drainPass :: "bool \<Rightarrow> AnnounceQueueState \<Rightarrow> PassResult \<times> bool \<times> AnnounceQueueState" where
  "drainPass forceIndividualCollect queue =
     (if mode queue = js ''collect'' then
        if forceIndividualCollect then shiftAndSend forceIndividualCollect queue
        else if hasCrossChannelItems (items queue) then shiftAndSend True queue
        else
          let its = items queue;
              (summary, queue1) = buildSummaryPrompt (queue\<lparr>items := []\<rparr>);
              collectPrompt = buildCollectPrompt its summary
          in (case its of
                [] \<Rightarrow> (Break, forceIndividualCollect, queue1)
              | _ # _ \<Rightarrow> (Send ((last its)\<lparr>prompt := collectPrompt\<rparr>), forceIndividualCollect, queue1))
      else
        let (summaryPrompt, queue1) = buildSummaryPrompt queue
        in if truthy summaryPrompt then
             (case items queue1 of
                [] \<Rightarrow> (Break, forceIndividualCollect, queue1)
              | next # rest \<Rightarrow>
                  (Send (next\<lparr>prompt := the summaryPrompt\<rparr>), forceIndividualCollect,
                   queue1\<lparr>items := rest\<rparr>))
           else shiftAndSend forceIndividualCollect queue1)"

text \<open>
  The \<open>finally\<close> block on the store: the flag is cleared, and the key is deleted or the
  drain is scheduled again. The boolean tells whether \<open>scheduleAnnounceDrain(key)\<close> is
  called again.
\<close>

definition drainFinally :: "QueueStore \<Rightarrow> jsstring \<Rightarrow> QueueStore \<times> bool" where
  "drainFinally ANNOUNCE_QUEUES key =
     (case ANNOUNCE_QUEUES key of
        None \<Rightarrow> (ANNOUNCE_QUEUES, False)
      | Some queue0 \<Rightarrow>
          let queue = queue0\<lparr>draining := False\<rparr>
          in if length (items queue) = 0 \<and> droppedCount queue = 0
             then (ANNOUNCE_QUEUES(key := None), False)
             else (ANNOUNCE_QUEUES(key \<mapsto> queue), True))"



section \<open>The debounce wait\<close>

text \<open>
  While a drain sleeps, other tasks may call \<open>enqueueAnnounce\<close> on its key. Such a call
  is recorded with the value of \<open>Date.now()\<close> at which it runs.
\<close>

record EnqueueCall =
  callAt :: int
  callItem :: AnnounceQueueItem
  callSettings :: QueueSettings

definition applyCalls :: "jsstring \<Rightarrow> EnqueueCall list \<Rightarrow> QueueStore \<Rightarrow> QueueStore" where
  "applyCalls key calls ANNOUNCE_QUEUES =
     fold (\<lambda>c store. fst (enqueueAnnounce store key (callItem c) (callSettings c) (callAt c)))
       calls ANNOUNCE_QUEUES"

text \<open>
  The \<open>while (true)\<close> loop of \<open>waitForQueueDebounce\<close>, with the debounce read once before
  it. \<open>now\<close> is the clock at the top of the iteration and \<open>calls\<close> are the enqueue calls
  still to come, in the order they run. The timer of \<open>debounceMs - since\<close> milliseconds
  fires at \<open>now + (debounceMs - since)\<close>; the calls due by then run before the loop
  looks at \<open>queue.lastEnqueuedAt\<close> again. The result is the clock at which the wait
  returns, the store then, and the calls not yet run. A waiting drain has its queue in
  the store; the \<open>None\<close> branch only makes the function total.
\<close>

function waitLoop ::
  "int \<Rightarrow> jsstring \<Rightarrow> QueueStore \<Rightarrow> int \<Rightarrow> EnqueueCall list \<Rightarrow> int \<times> QueueStore \<times> EnqueueCall list" where
  "waitLoop debounce key ANNOUNCE_QUEUES now calls =
     (case ANNOUNCE_QUEUES key of
        None \<Rightarrow> (now, ANNOUNCE_QUEUES, calls)
      | Some queue \<Rightarrow>
          let since = now - lastEnqueuedAt queue
          in if since \<ge> debounce then (now, ANNOUNCE_QUEUES, calls)
             else
               let wake = now + (debounce - since)
               in waitLoop debounce key
                    (applyCalls key (takeWhile (\<lambda>c. callAt c \<le> wake) calls) ANNOUNCE_QUEUES)
                    wake
                    (dropWhile (\<lambda>c. callAt c \<le> wake) calls))"
  by pat_completeness auto
termination
proof (relation "measure (\<lambda>(debounce, key, store, now, calls).
          2 * length calls +
          (case store key of None \<Rightarrow> 0
           | Some queue \<Rightarrow> if now - lastEnqueuedAt queue \<ge> debounce then 0 else 1))", goal_cases)
  case 1
  show ?case by simp
next
  case (2 debounce key store now calls queue since wake)
  let ?P = "\<lambda>c. callAt c \<le> wake"
  show ?case
  proof (cases "takeWhile ?P calls = []")
    case True
    then have d: "dropWhile ?P calls = calls"
      by (cases calls) (auto split: if_splits)
    have w: "wake - lastEnqueuedAt queue \<ge> debounce"
      using 2 by simp
    show ?thesis
      using 2 True d w by (simp add: applyCalls_def)
  next
    case False
    then have "length (dropWhile ?P calls) < length calls"
      by (cases calls) (auto split: if_splits simp: less_Suc_eq_le length_dropWhile_le)
    then show ?thesis
      using 2 by (auto split: option.splits)
  qed
qed

declare waitLoop.simps [simp del]

text \<open>
  \<open>waitForQueueDebounce\<close>: the debounce is read once, and a debounce of zero returns at
  once.
\<close>

definition waitForQueueDebounce ::
  "QueueStore \<Rightarrow> jsstring \<Rightarrow> int \<Rightarrow> EnqueueCall list \<Rightarrow> int \<times> QueueStore \<times> EnqueueCall list" where
  "waitForQueueDebounce ANNOUNCE_QUEUES key now calls =
     (case ANNOUNCE_QUEUES key of
        None \<Rightarrow> (now, ANNOUNCE_QUEUES, calls)
      | Some queue \<Rightarrow>
          let debounce = max 0 (debounceMs queue)
          in if debounce \<le> 0 then (now, ANNOUNCE_QUEUES, calls)
             else waitLoop debounce key ANNOUNCE_QUEUES now calls)"

section \<open>The runtime: the store and the live drains\<close>

text \<open>
  The drain body is an asynchronous function: it runs until it awaits the debounce wait
  or the transport, and other code runs in between. The runtime holds the store, one
  entry for every live instance of the drain body (its key, the await it is suspended
  at, and its local \<open>forceIndividualCollect\<close>), and the log of the calls made to
  \<open>sendAnnounce\<close>. The list of live drains can hold several entries for one key: that
  it never does is a property to prove.
\<close>

datatype DrainPoint = AwaitDebounce | AwaitSend

type_synonym DrainTask = "jsstring \<times> DrainPoint \<times> bool"

record Runtime =
  queues :: QueueStore
  drains :: "DrainTask list"
  sent :: "AnnounceQueueItem list"

definition initialRuntime :: Runtime where
  "initialRuntime = \<lparr>queues = Map.empty, drains = [], sent = []\<rparr>"

datatype Event =
  Enqueue jsstring AnnounceQueueItem QueueSettings int
| Schedule jsstring
| DebounceElapsed jsstring
| SendResolved jsstring
| SendRejected jsstring

text \<open>The first live drain of a key suspended at a given await, taken out of the list.\<close>

fun takeTask :: "jsstring \<Rightarrow> DrainPoint \<Rightarrow> DrainTask list \<Rightarrow> (bool \<times> DrainTask list) option" where
  "takeTask key pt [] = None"
| "takeTask key pt ((k, p, force) # ts) =
     (if k = key \<and> p = pt then Some (force, ts)
      else (case takeTask key pt ts of
              None \<Rightarrow> None
            | Some (force1, ts1) \<Rightarrow> Some (force1, (k, p, force) # ts1)))"

text \<open>
  The drain body from its start to its first await, after \<open>queue.draining = true\<close>: with
  something pending it suspends in the debounce wait; with nothing pending the loop is
  skipped and the \<open>finally\<close> block runs at once. The \<open>finally\<close> block keeps the key only
  if the items are not empty or the dropped count is not zero; were the loop condition
  false then (a negative dropped count), the source would schedule and finish drains
  without end, which is \<open>None\<close> here.
\<close>

definition beginDrain :: "Runtime \<Rightarrow> jsstring \<Rightarrow> Runtime option" where
  "beginDrain R key =
     (case queues R key of
        None \<Rightarrow> None
      | Some queue \<Rightarrow>
          if drainPending queue
          then Some (R\<lparr>drains := drains R @ [(key, AwaitDebounce, False)]\<rparr>)
          else (case drainFinally (queues R) key of
                  (store1, False) \<Rightarrow> Some (R\<lparr>queues := store1\<rparr>)
                | (store1, True) \<Rightarrow> None))"

text \<open>
  The end of a drain instance (already taken out of the list): the \<open>finally\<close> block and,
  from it, the next call of \<open>scheduleAnnounceDrain\<close>.
\<close>

definition endDrain :: "Runtime \<Rightarrow> jsstring \<Rightarrow> Runtime option" where
  "endDrain R key =
     (case drainFinally (queues R) key of
        (store1, False) \<Rightarrow> Some (R\<lparr>queues := store1\<rparr>)
      | (store1, True) \<Rightarrow>
          (case scheduleAnnounceDrain store1 key of
             (store2, False) \<Rightarrow> Some (R\<lparr>queues := store2\<rparr>)
           | (store2, True) \<Rightarrow> beginDrain (R\<lparr>queues := store2\<rparr>) key))"

text \<open>
  One atomic piece of execution. \<open>None\<close>: the event cannot happen in this runtime (no
  drain of the key is suspended at that await).
\<close>

fun step :: "Event \<Rightarrow> Runtime \<Rightarrow> Runtime option" where
  "step (Enqueue key item settings now) R =
     Some (R\<lparr>queues := fst (enqueueAnnounce (queues R) key item settings now)\<rparr>)"
| "step (Schedule key) R =
     (case scheduleAnnounceDrain (queues R) key of
        (store1, False) \<Rightarrow> Some (R\<lparr>queues := store1\<rparr>)
      | (store1, True) \<Rightarrow> beginDrain (R\<lparr>queues := store1\<rparr>) key)"
| "step (DebounceElapsed key) R =
     (case takeTask key AwaitDebounce (drains R) of
        None \<Rightarrow> None
      | Some (force, ts) \<Rightarrow>
          (case queues R key of
             None \<Rightarrow> None
           | Some queue \<Rightarrow>
               (case drainPass force queue of
                  (Send msg, force1, queue1) \<Rightarrow>
                    Some \<lparr>queues = (queues R)(key \<mapsto> queue1),
                          drains = ts @ [(key, AwaitSend, force1)],
                          sent = sent R @ [msg]\<rparr>
                | (Break, force1, queue1) \<Rightarrow>
                    endDrain \<lparr>queues = (queues R)(key \<mapsto> queue1), drains = ts, sent = sent R\<rparr> key)))"
| "step (SendResolved key) R =
     (case takeTask key AwaitSend (drains R) of
        None \<Rightarrow> None
      | Some (force, ts) \<Rightarrow>
          (case queues R key of
             None \<Rightarrow> None
           | Some queue \<Rightarrow>
               if drainPending queue
               then Some (R\<lparr>drains := ts @ [(key, AwaitDebounce, force)]\<rparr>)
               else endDrain (R\<lparr>drains := ts\<rparr>) key))"
| "step (SendRejected key) R =
     (case takeTask key AwaitSend (drains R) of
        None \<Rightarrow> None
      | Some (force, ts) \<Rightarrow> endDrain (R\<lparr>drains := ts\<rparr>) key)"

fun run :: "Event list \<Rightarrow> Runtime \<Rightarrow> Runtime option" where
  "run [] R = Some R"
| "run (e # es) R = (case step e R of None \<Rightarrow> None | Some R1 \<Rightarrow> run es R1)"

text \<open>The number of live drain instances of a key.\<close>

definition liveDrains :: "Runtime \<Rightarrow> jsstring \<Rightarrow> nat" where
  "liveDrains R key = length (filter (\<lambda>t. fst t = key) (drains R))"

section \<open>Sample data\<close>

text \<open>A run of \<open>enqueueAnnounce\<close> calls on one key with the same settings.\<close>

fun enqueueAll ::
  "QueueStore \<Rightarrow> jsstring \<Rightarrow> QueueSettings \<Rightarrow> (AnnounceQueueItem \<times> int) list \<Rightarrow> QueueStore \<times> bool list" where
  "enqueueAll store key settings [] = (store, [])"
| "enqueueAll store key settings ((item, now) # rest) =
     (let (store1, ok) = enqueueAnnounce store key item settings now;
          (store2, oks) = enqueueAll store1 key settings rest
      in (store2, ok # oks))"

text \<open>An announce with a prompt and an origin (channel, recipient, account).\<close>

definition announce :: "string \<Rightarrow> string \<Rightarrow> string \<Rightarrow> string option \<Rightarrow> AnnounceQueueItem" where
  "announce text channel recipient account =
     \<lparr>prompt = js text, summaryLine = None, enqueuedAt = 0, sessionKey = js ''agent:main:main'',
      originatingChannel = Some (js channel), originatingTo = Some (js recipient),
      originatingAccountId = map_option js account\<rparr>"

definition queueSettings :: "string \<Rightarrow> int \<Rightarrow> int \<Rightarrow> string \<Rightarrow> QueueSettings" where
  "queueSettings m debounce capacity policy =
     \<lparr>mode_s = js m, debounceMs_s = Some debounce, cap_s = Some capacity, dropPolicy_s = Some (js policy)\<rparr>"

section \<open>The summary line in the words of the specification\<close>

text \<open>
  The words of a text: its maximal runs of characters that are not white space. The
  specification's summary line is the words of the item's summary (or of its payload,
  when the summary is missing or blank) joined by single spaces, cut to 160 characters
  with an ellipsis when longer.
\<close>

function wordsOf :: "jsstring \<Rightarrow> jsstring list" where
  "wordsOf s =
     (let rest = dropWhile isWhiteSpace s
      in if rest = [] then []
         else takeWhile (\<lambda>c. \<not> isWhiteSpace c) rest
                # wordsOf (dropWhile (\<lambda>c. \<not> isWhiteSpace c) rest))"
  by pat_completeness auto
termination
proof (relation "measure length", goal_cases)
  case 1
  show ?case by simp
next
  case (2 s rest)
  then obtain c cs where r: "dropWhile isWhiteSpace s = c # cs"
    by (cases "dropWhile isWhiteSpace s") auto
  have "\<not> isWhiteSpace c"
    using hd_dropWhile [of isWhiteSpace s] r by simp
  then have "length (dropWhile (\<lambda>c. \<not> isWhiteSpace c) (c # cs)) \<le> length cs"
    by (simp add: length_dropWhile_le)
  moreover have "length (c # cs) \<le> length s"
    using length_dropWhile_le [of isWhiteSpace s] r by simp
  ultimately show ?case using 2 r by simp
qed

declare wordsOf.simps [simp del]

definition normalizeSpaces :: "jsstring \<Rightarrow> jsstring" where
  "normalizeSpaces s = joinWith [0x20] (wordsOf s)"

definition summarySource :: "AnnounceQueueItem \<Rightarrow> jsstring" where
  "summarySource item =
     (case summaryLine item of
        None \<Rightarrow> prompt item
      | Some s \<Rightarrow> if \<exists>c \<in> set s. \<not> isWhiteSpace c then s else prompt item)"

definition specSummaryLine :: "AnnounceQueueItem \<Rightarrow> jsstring" where
  "specSummaryLine item =
     (let line = normalizeSpaces (summarySource item)
      in if length line \<le> 160 then line
         else trimEnd (take 159 line) @ [0x2026])"

text \<open>The last \<open>n\<close> entries of a list.\<close>

definition lastN :: "nat \<Rightarrow> 'a list \<Rightarrow> 'a list" where
  "lastN n xs = drop (length xs - n) xs"

section \<open>Well-formed runtimes\<close>

text \<open>
  What holds between the store and the live drains in every runtime the program can
  reach: no key has two live drains; a key has a live drain exactly when its queue is
  in the store with the draining flag set; a queue whose drain is not running holds at
  least one item; and a drain suspended in the debounce wait has something pending.
\<close>

definition wellFormed :: "Runtime \<Rightarrow> bool" where
  "wellFormed R \<longleftrightarrow>
     distinct (map fst (drains R))
     \<and> (\<forall>key. (key \<in> fst ` set (drains R)) = (\<exists>q. queues R key = Some q \<and> draining q))
     \<and> (\<forall>key q. queues R key = Some q \<and> \<not> draining q \<longrightarrow> items q \<noteq> [])
     \<and> (\<forall>key force q. (key, AwaitDebounce, force) \<in> set (drains R) \<and> queues R key = Some q
            \<longrightarrow> drainPending q)"

text \<open>The same for all keys but one, whose drain has been taken out of the list.\<close>

definition wellFormedExcept :: "jsstring \<Rightarrow> QueueStore \<Rightarrow> DrainTask list \<Rightarrow> bool" where
  "wellFormedExcept key store ts \<longleftrightarrow>
     distinct (map fst ts) \<and> key \<notin> fst ` set ts
     \<and> (\<forall>k. k \<noteq> key \<longrightarrow> (k \<in> fst ` set ts) = (\<exists>q. store k = Some q \<and> draining q))
     \<and> (\<forall>k q. k \<noteq> key \<and> store k = Some q \<and> \<not> draining q \<longrightarrow> items q \<noteq> [])
     \<and> (\<forall>k force q. (k, AwaitDebounce, force) \<in> set ts \<and> store k = Some q \<longrightarrow> drainPending q)"

section \<open>The combined payload in the words of the specification\<close>





section \<open>Cross-destination items, as a property of the sequence\<close>









section \<open>The payloads the program enqueues\<close>

text \<open>
  \<open>enqueueAnnounce\<close> is private to its module and called from one place, with the
  \<open>triggerMessage\<close> that \<open>runSubagentAnnounceFlow\<close> builds as the prompt: ten lines
  joined by line feeds, the last of them a fixed sentence. \<open>reply\<close> is the latest
  assistant reply, if any; the task label, the status label and the stats line are
  strings computed before.
\<close>

definition triggerMessage :: "jsstring \<Rightarrow> jsstring \<Rightarrow> jsstring option \<Rightarrow> jsstring \<Rightarrow> jsstring" where
  "triggerMessage taskLabel statusLabel reply statsLine =
     joinWith LF
       [js ''A background task '' @ [0x22] @ taskLabel @ [0x22] @ js '' just '' @ statusLabel @ js ''.'',
        [],
        js ''Findings:'',
        (if truthy reply then the reply else js ''(no output)''),
        [],
        statsLine,
        [],
        js ''Summarize this naturally for the user. Keep it brief (1-2 sentences). Flow it into the conversation naturally.'',
        js ''Do not mention technical details like tokens, stats, or that this was a background task.'',
        js ''You can respond with NO_REPLY if no announcement is needed (e.g., internal task with no user-facing result).'']"

text \<open>A text that is not empty and does not end in white space.\<close>

definition noTrailingSpace :: "jsstring \<Rightarrow> bool" where
  "noTrailingSpace s \<longleftrightarrow> s \<noteq> [] \<and> \<not> isWhiteSpace (last s)"

section \<open>Properties of admission\<close>

lemma getAnnounceQueue_items [simp]:
  "items (getAnnounceQueue store key settings) = (case store key of None \<Rightarrow> [] | Some q \<Rightarrow> items q)"
  by (simp add: getAnnounceQueue_def split: option.splits)

lemma enqueueAnnounce_below_cap:
  assumes "getAnnounceQueue store key settings = q" "int (length (items q)) < cap q"
  shows "enqueueAnnounce store key item settings now =
           (store(key \<mapsto> q\<lparr>lastEnqueuedAt := now, items := items q @ [item]\<rparr>), True)"
  using assms by (auto simp: enqueueAnnounce_def Let_def)

lemma enqueueAnnounce_reject:
  assumes "getAnnounceQueue store key settings = q" "cap q > 0" "int (length (items q)) \<ge> cap q"
    "dropPolicy q = js ''new''"
  shows "enqueueAnnounce store key item settings now = (store(key \<mapsto> q\<lparr>lastEnqueuedAt := now\<rparr>), False)"
  using assms by (auto simp: enqueueAnnounce_def Let_def)

lemma enqueueAll_fill:
  assumes "store key = Some q" "cap_s settings = Some N" "N > 0"
    "dropPolicy_s settings = Some (js ''new'')"
    "int (length (items q)) + int (length xs) \<le> N"
  shows "\<exists>store1 q1. enqueueAll store key settings xs = (store1, replicate (length xs) True)
            \<and> store1 key = Some q1 \<and> items q1 = items q @ map fst xs"
  using assms
proof (induction xs arbitrary: store q)
  case Nil
  then show ?case by simp
next
  case (Cons x xs)
  obtain item now where x: "x = (item, now)" by (cases x)
  let ?g = "getAnnounceQueue store key settings"
  have g: "items ?g = items q" "cap ?g = N"
    using Cons.prems by (simp_all add: getAnnounceQueue_def)
  have lt: "int (length (items ?g)) < cap ?g" using g Cons.prems by simp
  let ?q1 = "?g\<lparr>lastEnqueuedAt := now, items := items ?g @ [item]\<rparr>"
  let ?s1 = "store(key \<mapsto> ?q1)"
  have e: "enqueueAnnounce store key item settings now = (?s1, True)"
    using enqueueAnnounce_below_cap [OF refl lt] .
  have "\<exists>store1 q1. enqueueAll ?s1 key settings xs = (store1, replicate (length xs) True)
            \<and> store1 key = Some q1 \<and> items q1 = items ?q1 @ map fst xs"
    by (rule Cons.IH) (use Cons.prems g in auto)
  then show ?case using e x g by auto
qed

text \<open>
  Claim C4. On a fresh key, with capacity \<open>N\<close> and drop policy \<open>"new"\<close>, \<open>N\<close> enqueues all
  return \<open>true\<close> and leave the \<open>N\<close> items in enqueue order; every further enqueue returns
  \<open>false\<close> and leaves the sequence as it was: the same items in the same order, \<open>N\<close> of
  them.
\<close>

theorem reject_new_at_capacity:
  assumes "store key = None" "cap_s settings = Some N" "N > 0"
    "dropPolicy_s settings = Some (js ''new'')" "int (length xs) = N"
  shows "\<exists>store1 q1. enqueueAll store key settings xs = (store1, replicate (length xs) True)
            \<and> store1 key = Some q1 \<and> items q1 = map fst xs
            \<and> (\<forall>item now. \<exists>store2 q2. enqueueAnnounce store1 key item settings now = (store2, False)
                   \<and> store2 key = Some q2 \<and> items q2 = map fst xs \<and> length (items q2) = nat N)"
proof -
  from assms obtain x xs' where xs: "xs = x # xs'" by (cases xs) auto
  obtain item now where x: "x = (item, now)" by (cases x)
  let ?g = "getAnnounceQueue store key settings"
  have g: "items ?g = []" "cap ?g = N"
    using assms by (simp_all add: getAnnounceQueue_def)
  let ?q1 = "?g\<lparr>lastEnqueuedAt := now, items := items ?g @ [item]\<rparr>"
  let ?s1 = "store(key \<mapsto> ?q1)"
  have e: "enqueueAnnounce store key item settings now = (?s1, True)"
    by (rule enqueueAnnounce_below_cap [OF refl]) (use g assms in simp)
  have "\<exists>store1 q1. enqueueAll ?s1 key settings xs' = (store1, replicate (length xs') True)
            \<and> store1 key = Some q1 \<and> items q1 = items ?q1 @ map fst xs'"
    by (rule enqueueAll_fill [where N = N]) (use assms g xs in auto)
  then obtain store1 q1 where r: "enqueueAll ?s1 key settings xs' = (store1, replicate (length xs') True)"
    "store1 key = Some q1" "items q1 = items ?q1 @ map fst xs'" by blast
  have all: "enqueueAll store key settings xs = (store1, replicate (length xs) True)"
    using e r xs x by simp
  have it: "items q1 = map fst xs" using r g xs x by simp
  have rej: "\<exists>store2 q2. enqueueAnnounce store1 key item' settings now' = (store2, False)
                   \<and> store2 key = Some q2 \<and> items q2 = map fst xs \<and> length (items q2) = nat N" for item' now'
  proof -
    let ?h = "getAnnounceQueue store1 key settings"
    have h: "items ?h = map fst xs" "cap ?h = N" "dropPolicy ?h = js ''new''"
      using r it assms by (simp_all add: getAnnounceQueue_def)
    have "enqueueAnnounce store1 key item' settings now' = (store1(key \<mapsto> ?h\<lparr>lastEnqueuedAt := now'\<rparr>), False)"
      by (rule enqueueAnnounce_reject [OF refl]) (use h assms in auto)
    then show ?thesis using h assms by auto
  qed
  show ?thesis using all r(2) it rej by blast
qed

theorem reject_new_at_capacity_witness:
  "\<exists>store1 q1.
     enqueueAll Map.empty (js ''k'') (queueSettings ''followup'' 0 2 ''new'')
       [(announce ''A'' ''whatsapp'' ''+1'' None, 1), (announce ''B'' ''whatsapp'' ''+1'' None, 2)]
       = (store1, [True, True])
     \<and> store1 (js ''k'') = Some q1
     \<and> items q1 = [announce ''A'' ''whatsapp'' ''+1'' None, announce ''B'' ''whatsapp'' ''+1'' None]
     \<and> (\<forall>item now. \<exists>store2 q2.
           enqueueAnnounce store1 (js ''k'') item (queueSettings ''followup'' 0 2 ''new'') now = (store2, False)
           \<and> store2 (js ''k'') = Some q2
           \<and> items q2 = [announce ''A'' ''whatsapp'' ''+1'' None, announce ''B'' ''whatsapp'' ''+1'' None]
           \<and> length (items q2) = 2)"
  using reject_new_at_capacity [of Map.empty "js ''k''" "queueSettings ''followup'' 0 2 ''new''" 2
    "[(announce ''A'' ''whatsapp'' ''+1'' None, 1), (announce ''B'' ''whatsapp'' ''+1'' None, 2)]"]
  by (simp add: queueSettings_def)

lemma enqueueAnnounce_False:
  assumes "enqueueAnnounce store key item settings now = (store1, False)"
  shows "store1 = store(key \<mapsto> (getAnnounceQueue store key settings)\<lparr>lastEnqueuedAt := now\<rparr>)
         \<and> dropPolicy (getAnnounceQueue store key settings) = js ''new''
         \<and> 0 < cap (getAnnounceQueue store key settings)
         \<and> cap (getAnnounceQueue store key settings) \<le> int (length (items (getAnnounceQueue store key settings)))"
  using assms by (auto simp: enqueueAnnounce_def Let_def split: if_splits)

lemma waitLoop_done:
  "store key = Some q \<Longrightarrow> debounce \<le> now - lastEnqueuedAt q \<Longrightarrow>
     waitLoop debounce key store now calls = (now, store, calls)"
  by (subst waitLoop.simps) simp

lemma waitLoop_sleep:
  "store key = Some q \<Longrightarrow> \<not> debounce \<le> now - lastEnqueuedAt q \<Longrightarrow>
     waitLoop debounce key store now calls =
       waitLoop debounce key
         (applyCalls key (takeWhile (\<lambda>c. callAt c \<le> lastEnqueuedAt q + debounce) calls) store)
         (lastEnqueuedAt q + debounce)
         (dropWhile (\<lambda>c. callAt c \<le> lastEnqueuedAt q + debounce) calls)"
  by (subst waitLoop.simps) (simp add: Let_def algebra_simps)

text \<open>
  Claim C10. An enqueue that returns \<open>false\<close> found an existing queue at capacity under
  the policy \<open>"new"\<close>; it leaves the items, the dropped count and the summary lines as
  they were, but it has overwritten the settings (the mode always; debounce, capacity
  and drop policy when provided and valid) and set \<open>lastEnqueuedAt\<close> to the current time.
  A drain that is waiting for the quiet period, and would have returned at
  \<open>lastEnqueuedAt + debounceMs\<close>, returns at \<open>now + debounceMs\<close> instead when the rejected
  call runs at \<open>now\<close> during its sleep.
\<close>

theorem rejected_enqueue_resets_clock:
  assumes rej: "enqueueAnnounce store key item settings now = (store1, False)"
  shows "\<exists>q q1. store key = Some q \<and> store1 = store(key \<mapsto> q1)
           \<and> items q1 = items q \<and> droppedCount q1 = droppedCount q
           \<and> summaryLines q1 = summaryLines q \<and> draining q1 = draining q
           \<and> lastEnqueuedAt q1 = now
           \<and> mode q1 = mode_s settings
           \<and> debounceMs q1 = (case debounceMs_s settings of Some d \<Rightarrow> max 0 d | None \<Rightarrow> debounceMs q)
           \<and> cap q1 = (case cap_s settings of Some c \<Rightarrow> if c > 0 then c else cap q | None \<Rightarrow> cap q)
           \<and> dropPolicy q1 = (case dropPolicy_s settings of Some p \<Rightarrow> p | None \<Rightarrow> dropPolicy q)
           \<and> dropPolicy q1 = js ''new'' \<and> 0 < cap q1 \<and> cap q1 \<le> int (length (items q))
           \<and> (\<forall>start. 0 < debounceMs q \<and> lastEnqueuedAt q \<le> start \<and> start \<le> now
                  \<and> start < lastEnqueuedAt q + debounceMs q \<and> lastEnqueuedAt q < now \<and> now \<le> lastEnqueuedAt q + debounceMs q \<longrightarrow>
                 waitForQueueDebounce store key start [] = (lastEnqueuedAt q + debounceMs q, store, [])
               \<and> waitForQueueDebounce store key start
                    [\<lparr>callAt = now, callItem = item, callSettings = settings\<rparr>]
                  = (now + debounceMs q, store1, []))"
proof -
  let ?g = "getAnnounceQueue store key settings"
  note f = enqueueAnnounce_False [OF rej]
  obtain q where q: "store key = Some q"
    using f by (cases "store key") (auto simp: getAnnounceQueue_def split: option.splits if_splits)
  let ?q1 = "?g\<lparr>lastEnqueuedAt := now\<rparr>"
  have s1: "store1 = store(key \<mapsto> ?q1)" using f by simp
  have fields: "items ?q1 = items q" "droppedCount ?q1 = droppedCount q"
    "summaryLines ?q1 = summaryLines q" "draining ?q1 = draining q" "lastEnqueuedAt ?q1 = now"
    "mode ?q1 = mode_s settings"
    "debounceMs ?q1 = (case debounceMs_s settings of Some d \<Rightarrow> max 0 d | None \<Rightarrow> debounceMs q)"
    "cap ?q1 = (case cap_s settings of Some c \<Rightarrow> if c > 0 then c else cap q | None \<Rightarrow> cap q)"
    "dropPolicy ?q1 = (case dropPolicy_s settings of Some p \<Rightarrow> p | None \<Rightarrow> dropPolicy q)"
    using q by (simp_all add: getAnnounceQueue_def)
  have pol: "dropPolicy ?q1 = js ''new''" "0 < cap ?q1" "cap ?q1 \<le> int (length (items q))"
    using f q by simp_all
  have wait: "waitForQueueDebounce store key start [] = (lastEnqueuedAt q + debounceMs q, store, [])
               \<and> waitForQueueDebounce store key start
                    [\<lparr>callAt = now, callItem = item, callSettings = settings\<rparr>]
                  = (now + debounceMs q, store1, [])"
    if h: "0 < debounceMs q" "lastEnqueuedAt q \<le> start" "start \<le> now"
       "start < lastEnqueuedAt q + debounceMs q" "lastEnqueuedAt q < now" "now \<le> lastEnqueuedAt q + debounceMs q" for start
  proof -
    let ?d = "debounceMs q" and ?l = "lastEnqueuedAt q"
    let ?c = "\<lparr>callAt = now, callItem = item, callSettings = settings\<rparr>"
    have nd: "\<not> ?d \<le> start - ?l" using h by simp
    have a: "waitLoop ?d key store start [] = (?l + ?d, store, [])"
      using waitLoop_sleep [where store = store and key = key and q = q and debounce = ?d
               and now = start and calls = "[]"]
        waitLoop_done [where store = store and key = key and q = q and debounce = ?d
               and now = "?l + ?d" and calls = "[]"] q nd
      by (simp add: applyCalls_def)
    have ap: "applyCalls key [?c] store = store1"
      using rej by (simp add: applyCalls_def)
    have k1: "store1 key = Some ?q1" using s1 by simp
    have nd1: "\<not> ?d \<le> (?l + ?d) - lastEnqueuedAt ?q1" using h by simp
    have b1: "waitLoop ?d key store start [?c] = waitLoop ?d key store1 (?l + ?d) []"
      using waitLoop_sleep [where store = store and key = key and q = q and debounce = ?d
               and now = start and calls = "[?c]"] q nd h ap by simp
    have b2: "waitLoop ?d key store1 (?l + ?d) [] = waitLoop ?d key store1 (now + ?d) []"
      using waitLoop_sleep [where store = store1 and key = key and q = ?q1 and debounce = ?d
               and now = "?l + ?d" and calls = "[]"] k1 nd1 by (simp add: applyCalls_def)
    have b3: "waitLoop ?d key store1 (now + ?d) [] = (now + ?d, store1, [])"
      using waitLoop_done [where store = store1 and key = key and q = ?q1 and debounce = ?d
               and now = "now + ?d" and calls = "[]"] k1 by simp
    show ?thesis
      using a b1 b2 b3 q h by (simp add: waitForQueueDebounce_def Let_def)
  qed
  show ?thesis
    using q s1 fields pol wait by blast
qed

theorem rejected_enqueue_resets_clock_witness:
  "\<exists>store1. enqueueAnnounce
      [js ''k'' \<mapsto> \<lparr>items = [announce ''A'' ''whatsapp'' ''+1'' None], draining = True, lastEnqueuedAt = 100,
                    mode = js ''followup'', debounceMs = 50, cap = 1, dropPolicy = js ''new'',
                    droppedCount = 0, summaryLines = []\<rparr>]
      (js ''k'') (announce ''B'' ''whatsapp'' ''+1'' None) (queueSettings ''collect'' 70 1 ''new'') 120
      = (store1, False)
    \<and> waitForQueueDebounce
      [js ''k'' \<mapsto> \<lparr>items = [announce ''A'' ''whatsapp'' ''+1'' None], draining = True, lastEnqueuedAt = 100,
                    mode = js ''followup'', debounceMs = 50, cap = 1, dropPolicy = js ''new'',
                    droppedCount = 0, summaryLines = []\<rparr>]
      (js ''k'') 110
      [\<lparr>callAt = 120, callItem = announce ''B'' ''whatsapp'' ''+1'' None,
        callSettings = queueSettings ''collect'' 70 1 ''new''\<rparr>]
      = (170, store1, [])"
proof -
  let ?q = "\<lparr>items = [announce ''A'' ''whatsapp'' ''+1'' None], draining = True, lastEnqueuedAt = 100,
                    mode = js ''followup'', debounceMs = 50, cap = 1, dropPolicy = js ''new'',
                    droppedCount = 0, summaryLines = []\<rparr>"
  let ?store = "[js ''k'' \<mapsto> ?q]"
  obtain store1 where e: "enqueueAnnounce ?store (js ''k'') (announce ''B'' ''whatsapp'' ''+1'' None)
      (queueSettings ''collect'' 70 1 ''new'') 120 = (store1, False)"
    by (simp add: enqueueAnnounce_def getAnnounceQueue_def queueSettings_def Let_def)
  show ?thesis
    using rejected_enqueue_resets_clock [OF e] e by (auto simp: )
qed

section \<open>Eviction and the summary line\<close>

lemma trimEnd_length: "length (trimEnd s) \<le> length s"
  using length_dropWhile_le [of isWhiteSpace "rev s"] by (simp add: trimEnd_def)

lemma trimEnd_snoc: "trimEnd (xs @ [c]) = (if isWhiteSpace c then trimEnd xs else xs @ [c])"
  by (simp add: trimEnd_def)

lemma trimEnd_Nil [simp]: "trimEnd [] = []"
  by (simp add: trimEnd_def)

lemma trimEnd_append: "trimEnd ys \<noteq> [] \<Longrightarrow> trimEnd (xs @ ys) = xs @ trimEnd ys"
  by (auto simp: trimEnd_def dropWhile_append)

lemma trimEnd_id: "s \<noteq> [] \<Longrightarrow> \<not> isWhiteSpace (last s) \<Longrightarrow> trimEnd s = s"
  by (cases s rule: rev_cases) (auto simp: trimEnd_snoc)

lemma trimEnd_all_space: "\<forall>c \<in> set s. isWhiteSpace c \<Longrightarrow> trimEnd s = []"
  by (simp add: trimEnd_def)

lemma isWhiteSpace_space [simp]: "isWhiteSpace 0x20"
  by (simp add: isWhiteSpace_def)



lemma collapse_word:
  assumes "\<forall>c \<in> set w. \<not> isWhiteSpace c"
  shows "collapseWhitespace (w @ r) = w @ collapseWhitespace r"
  using assms by (induction w) auto

lemma joinWith_Cons: "ws \<noteq> [] \<Longrightarrow> joinWith sep (w # ws) = w @ sep @ joinWith sep ws"
  by (cases ws) auto

lemma joinWith_last:
  "ws \<noteq> [] \<Longrightarrow> last ws \<noteq> [] \<Longrightarrow> joinWith sep ws \<noteq> [] \<and> last (joinWith sep ws) = last (last ws)"
  by (induction sep ws rule: joinWith.induct) auto




lemma wordsOf_Nil: "dropWhile isWhiteSpace s = [] \<Longrightarrow> wordsOf s = []"
  by (subst wordsOf.simps) (simp del: dropWhile_eq_Nil_conv)

lemma wordsOf_Cons:
  "dropWhile isWhiteSpace s \<noteq> [] \<Longrightarrow>
     wordsOf s = takeWhile (\<lambda>c. \<not> isWhiteSpace c) (dropWhile isWhiteSpace s)
                   # wordsOf (dropWhile (\<lambda>c. \<not> isWhiteSpace c) (dropWhile isWhiteSpace s))"
  by (subst wordsOf.simps) (simp add: Let_def del: dropWhile_eq_Nil_conv)

lemma dropWhile_head: "dropWhile P s = c # cs \<Longrightarrow> \<not> P c"
  using hd_dropWhile [of P s] by auto

lemma collapse_trimStart: "trimStart (collapseWhitespace s) = collapseWhitespace (trimStart s)"
proof (cases s)
  case Nil
  then show ?thesis by (simp add: trimStart_def)
next
  case (Cons c cs)
  show ?thesis
  proof (cases "isWhiteSpace c")
    case True
    have "dropWhile isWhiteSpace (collapseWhitespace (dropWhile isWhiteSpace cs))
            = collapseWhitespace (dropWhile isWhiteSpace cs)"
    proof (cases "dropWhile isWhiteSpace cs")
      case Nil
      show ?thesis unfolding Nil by simp
    next
      case (Cons d ds)
      then have "\<not> isWhiteSpace d" by (rule dropWhile_head)
      then show ?thesis unfolding Cons by simp
    qed
    then show ?thesis using True Cons by (simp add: trimStart_def)
  next
    case False
    then show ?thesis using Cons by (simp add: trimStart_def)
  qed
qed

lemma wordsOf_ne: "w \<in> set (wordsOf s) \<Longrightarrow> w \<noteq> [] \<and> (\<forall>c \<in> set w. \<not> isWhiteSpace c)"
proof (induction s rule: wordsOf.induct)
  case (1 s)
  let ?rest = "dropWhile isWhiteSpace s"
  show ?case
  proof (cases "?rest = []")
    case True
    then have "wordsOf s = []" by (rule wordsOf_Nil)
    then show ?thesis using "1.prems" by simp
  next
    case False
    then obtain c cs where r: "?rest = c # cs" by (cases ?rest) auto
    have nc: "\<not> isWhiteSpace c" using r by (rule dropWhile_head)
    have ws: "wordsOf s = takeWhile (\<lambda>c. \<not> isWhiteSpace c) ?rest
                # wordsOf (dropWhile (\<lambda>c. \<not> isWhiteSpace c) ?rest)"
      using False by (rule wordsOf_Cons)
    from "1.prems" ws consider "w = takeWhile (\<lambda>c. \<not> isWhiteSpace c) ?rest"
      | "w \<in> set (wordsOf (dropWhile (\<lambda>c. \<not> isWhiteSpace c) ?rest))" by auto
    then show ?thesis
    proof cases
      case 1
      have "w \<noteq> []" unfolding 1 r using nc by simp
      moreover have "\<forall>c \<in> set w. \<not> isWhiteSpace c"
        unfolding 1 by (blast dest: set_takeWhileD)
      ultimately show ?thesis by blast
    next
      case 2
      show ?thesis by (rule "1.IH" [OF refl False 2])
    qed
  qed
qed


lemma trimEnd_word:
  assumes "w \<noteq> []" "\<not> isWhiteSpace (last w)" "trimEnd r = []"
  shows "trimEnd (w @ r) = w"
proof -
  have "\<forall>c \<in> set r. isWhiteSpace c"
    using assms(3) by (simp add: trimEnd_def)
  then have "dropWhile isWhiteSpace (rev r @ rev w) = dropWhile isWhiteSpace (rev w)"
    by (simp add: dropWhile_append)
  then have "trimEnd (w @ r) = trimEnd w" by (simp add: trimEnd_def)
  then show ?thesis using trimEnd_id [OF assms(1,2)] by simp
qed

lemma trimEnd_eq_Nil: "trimEnd s = [] \<longleftrightarrow> (\<forall>c \<in> set s. isWhiteSpace c)"
  by (simp add: trimEnd_def)

lemma all_space_Cons:
  "\<forall>c \<in> set s. isWhiteSpace c \<Longrightarrow> \<forall>c \<in> set (0x20 # s). isWhiteSpace c"
  by simp

lemma wordsOf_empty [simp]: "wordsOf [] = []"
  by (simp add: wordsOf_Nil)

lemma trimEnd_after_space:
  assumes "trimEnd x = n" "n \<noteq> []"
  shows "trimEnd (w @ 0x20 # x) = w @ 0x20 # n"
  using trimEnd_append [of x "w @ [0x20]"] assms by simp

lemma trim_collapse: "trim (collapseWhitespace s) = normalizeSpaces s"
proof (induction s rule: wordsOf.induct)
  case (1 s)
  let ?rest = "dropWhile isWhiteSpace s"
  have t: "trim (collapseWhitespace s) = trimEnd (collapseWhitespace ?rest)"
    using collapse_trimStart [of s] by (simp add: trim_def trimStart_def)
  show ?case
  proof (cases "?rest = []")
    case True
    have "wordsOf s = []" using True by (rule wordsOf_Nil)
    then show ?thesis unfolding t True by (simp add: normalizeSpaces_def)
  next
    case False
    let ?w = "takeWhile (\<lambda>c. \<not> isWhiteSpace c) ?rest"
    let ?r = "dropWhile (\<lambda>c. \<not> isWhiteSpace c) ?rest"
    let ?r' = "dropWhile isWhiteSpace ?r"
    obtain c cs where r: "?rest = c # cs" using False unfolding neq_Nil_conv by blast
    have nc: "\<not> isWhiteSpace c" using r by (rule dropWhile_head)
    have wne: "?w \<noteq> []" unfolding r using nc by simp
    have wall: "\<forall>c \<in> set ?w. \<not> isWhiteSpace c" by (blast dest: set_takeWhileD)
    have wlast: "\<not> isWhiteSpace (last ?w)"
      using wall last_in_set [OF wne] by blast
    have ws: "wordsOf s = ?w # wordsOf ?r"
      using False by (rule wordsOf_Cons)
    have "collapseWhitespace (?w @ ?r) = ?w @ collapseWhitespace ?r"
      using wall by (rule collapse_word)
    then have c1: "collapseWhitespace ?rest = ?w @ collapseWhitespace ?r"
      by (simp only: takeWhile_dropWhile_id)
    have IH: "trim (collapseWhitespace ?r) = normalizeSpaces ?r"
      by (rule "1.IH" [OF refl False])
    have "trim (collapseWhitespace ?r) = trimEnd (collapseWhitespace ?r')"
      using collapse_trimStart [of ?r] by (simp only: trim_def trimStart_def)
    then have tr: "trimEnd (collapseWhitespace ?r') = normalizeSpaces ?r"
      using IH by simp
    have c2: "collapseWhitespace ?r = 0x20 # collapseWhitespace ?r'" if "?r \<noteq> []"
    proof -
      from that obtain d ds where d: "?r = d # ds" unfolding neq_Nil_conv by blast
      have "\<not> \<not> isWhiteSpace d" using d by (rule dropWhile_head)
      then show ?thesis unfolding d by simp
    qed
    show ?thesis
    proof (cases "wordsOf ?r = []")
      case True
      have "trimEnd (collapseWhitespace ?r') = []"
        unfolding tr normalizeSpaces_def True by simp
      then have allws: "\<forall>c \<in> set (collapseWhitespace ?r'). isWhiteSpace c"
        unfolding trimEnd_eq_Nil .
      have "\<forall>c \<in> set (collapseWhitespace ?r). isWhiteSpace c"
      proof (cases "?r = []")
        case True
        show ?thesis unfolding True by simp
      next
        case False
        show ?thesis unfolding c2 [OF False] using allws by (rule all_space_Cons)
      qed
      then have "trimEnd (collapseWhitespace ?r) = []"
        unfolding trimEnd_eq_Nil .
      with wne wlast have "trimEnd (?w @ collapseWhitespace ?r) = ?w"
        by (rule trimEnd_word)
      then have "trim (collapseWhitespace s) = ?w" unfolding t c1 .
      moreover have "normalizeSpaces s = ?w" unfolding normalizeSpaces_def ws True by simp
      ultimately show ?thesis by simp
    next
      case False
      have rne: "?r \<noteq> []"
      proof
        assume a: "?r = []"
        show False using False unfolding a by simp
      qed
      have "last (wordsOf ?r) \<in> set (wordsOf ?r)" using False by simp
      then have "last (wordsOf ?r) \<noteq> []" using wordsOf_ne by blast
      then have nne: "normalizeSpaces ?r \<noteq> []"
        unfolding normalizeSpaces_def using False joinWith_last by blast
      have "trimEnd (?w @ 0x20 # collapseWhitespace ?r') = ?w @ 0x20 # normalizeSpaces ?r"
        using tr nne by (rule trimEnd_after_space)
      then have "trim (collapseWhitespace s) = ?w @ 0x20 # normalizeSpaces ?r"
        unfolding t c1 c2 [OF rne] .
      moreover have "normalizeSpaces s = ?w @ [0x20] @ normalizeSpaces ?r"
        unfolding normalizeSpaces_def ws using False by (rule joinWith_Cons)
      ultimately show ?thesis by simp
    qed
  qed
qed


lemma wordsOf_all_space: "\<forall>c \<in> set s. isWhiteSpace c \<Longrightarrow> wordsOf s = []"
  by (rule wordsOf_Nil) simp

lemma takeWhile_append_stop: "takeWhile P t = [] \<Longrightarrow> takeWhile P (xs @ t) = takeWhile P xs"
  by (induction xs) auto

lemma dropWhile_append_stop: "dropWhile P t = t \<Longrightarrow> dropWhile P (xs @ t) = dropWhile P xs @ t"
  by (induction xs) auto

lemma wordsOf_append_space:
  assumes "\<forall>c \<in> set t. isWhiteSpace c"
  shows "wordsOf (s @ t) = wordsOf s"
proof (induction s rule: wordsOf.induct)
  case (1 s)
  let ?rest = "dropWhile isWhiteSpace s"
  show ?case
  proof (cases "?rest = []")
    case True
    then have "\<forall>c \<in> set (s @ t). isWhiteSpace c" using assms by auto
    then have "wordsOf (s @ t) = []" by (rule wordsOf_all_space)
    moreover have "wordsOf s = []" using True by (rule wordsOf_Nil)
    ultimately show ?thesis by simp
  next
    case False
    let ?w = "takeWhile (\<lambda>c. \<not> isWhiteSpace c) ?rest"
    let ?r = "dropWhile (\<lambda>c. \<not> isWhiteSpace c) ?rest"
    have ex: "\<exists>c \<in> set s. \<not> isWhiteSpace c" using False by auto
    then have d: "dropWhile isWhiteSpace (s @ t) = ?rest @ t"
      by (auto simp: dropWhile_append)
    have ne: "dropWhile isWhiteSpace (s @ t) \<noteq> []" unfolding d using False by blast
    have tw: "takeWhile (\<lambda>c. \<not> isWhiteSpace c) t = []"
      using assms by (cases t) auto
    have dt: "dropWhile (\<lambda>c. \<not> isWhiteSpace c) t = t"
      using assms by (cases t) auto
    have w: "takeWhile (\<lambda>c. \<not> isWhiteSpace c) (?rest @ t) = ?w"
      using tw by (rule takeWhile_append_stop)
    have IH: "wordsOf (?r @ t) = wordsOf ?r" by (rule "1.IH" [OF refl False])
    have "dropWhile (\<lambda>c. \<not> isWhiteSpace c) (?rest @ t) = ?r @ t"
      using dt by (rule dropWhile_append_stop)
    then have r: "wordsOf (dropWhile (\<lambda>c. \<not> isWhiteSpace c) (?rest @ t)) = wordsOf ?r"
      using IH by simp
    have "wordsOf (s @ t) = ?w # wordsOf ?r"
      using wordsOf_Cons [OF ne] unfolding d w r .
    moreover have "wordsOf s = ?w # wordsOf ?r" using False by (rule wordsOf_Cons)
    ultimately show ?thesis by simp
  qed
qed

lemma trimEnd_split: "\<exists>t. s = trimEnd s @ t \<and> (\<forall>c \<in> set t. isWhiteSpace c)"
proof -
  have "rev (takeWhile isWhiteSpace (rev s) @ dropWhile isWhiteSpace (rev s)) = s"
    by (simp only: takeWhile_dropWhile_id rev_rev_ident)
  then have "s = trimEnd s @ rev (takeWhile isWhiteSpace (rev s))"
    by (simp only: rev_append trimEnd_def)
  moreover have "\<forall>c \<in> set (rev (takeWhile isWhiteSpace (rev s))). isWhiteSpace c"
    by (auto dest: set_takeWhileD)
  ultimately show ?thesis by blast
qed

lemma wordsOf_trimEnd: "wordsOf (trimEnd s) = wordsOf s"
proof -
  obtain t where t: "s = trimEnd s @ t" "\<forall>c \<in> set t. isWhiteSpace c"
    using trimEnd_split by blast
  have "wordsOf (trimEnd s @ t) = wordsOf (trimEnd s)" using t(2) by (rule wordsOf_append_space)
  then show ?thesis using t(1) by simp
qed

lemma wordsOf_trimStart: "wordsOf (trimStart s) = wordsOf s"
proof (cases "dropWhile isWhiteSpace s = []")
  case True
  then have "wordsOf s = []" by (rule wordsOf_Nil)
  then show ?thesis unfolding trimStart_def True by simp
next
  case False
  have i: "dropWhile isWhiteSpace (dropWhile isWhiteSpace s) = dropWhile isWhiteSpace s"
  proof -
    obtain c cs where r: "dropWhile isWhiteSpace s = c # cs" using False unfolding neq_Nil_conv by blast
    have "\<not> isWhiteSpace c" using r by (rule dropWhile_head)
    then show ?thesis unfolding r by simp
  qed
  have ne: "dropWhile isWhiteSpace (dropWhile isWhiteSpace s) \<noteq> []" unfolding i by (rule False)
  show ?thesis
    using wordsOf_Cons [OF ne] wordsOf_Cons [OF False] unfolding i trimStart_def by simp
qed

lemma normalizeSpaces_trim: "normalizeSpaces (trim s) = normalizeSpaces s"
  by (simp add: normalizeSpaces_def trim_def wordsOf_trimEnd wordsOf_trimStart)

lemma trim_eq_Nil: "trim s = [] \<longleftrightarrow> (\<forall>c \<in> set s. isWhiteSpace c)"
proof
  assume "trim s = []"
  then have a: "\<forall>c \<in> set (dropWhile isWhiteSpace s). isWhiteSpace c"
    by (simp only: trim_def trimStart_def trimEnd_eq_Nil)
  have "dropWhile isWhiteSpace s = []"
  proof (rule ccontr)
    assume "dropWhile isWhiteSpace s \<noteq> []"
    then obtain c cs where r: "dropWhile isWhiteSpace s = c # cs" unfolding neq_Nil_conv by blast
    have "\<not> isWhiteSpace c" using r by (rule dropWhile_head)
    then show False using a unfolding r by simp
  qed
  then show "\<forall>c \<in> set s. isWhiteSpace c" by simp
next
  assume "\<forall>c \<in> set s. isWhiteSpace c"
  then have d: "dropWhile isWhiteSpace s = []" by simp
  show "trim s = []" unfolding trim_def trimStart_def d by simp
qed

lemma buildQueueSummaryLine_spec: "buildQueueSummaryLine item = specSummaryLine item"
proof -
  let ?base = "if truthy (map_option trim (summaryLine item))
                  then trim (the (summaryLine item)) else trim (prompt item)"
  have b: "?base = trim (summarySource item)"
    by (cases "summaryLine item") (auto simp: truthy_def summarySource_def trim_eq_Nil)
  have "trim (collapseWhitespace ?base) = normalizeSpaces (summarySource item)"
    unfolding b trim_collapse by (rule normalizeSpaces_trim)
  then show ?thesis
    by (simp add: buildQueueSummaryLine_def specSummaryLine_def elideText_def Let_def)
qed

lemma specSummaryLine_length: "length (specSummaryLine item) \<le> 160"
proof -
  have "length (trimEnd (take 159 l)) \<le> 159" for l :: jsstring
    using trimEnd_length [of "take 159 l"] by simp
  then show ?thesis by (simp add: specSummaryLine_def Let_def)
qed

lemma summarizeDropped_eq:
  "summarizeDropped ds q =
     q\<lparr>droppedCount := droppedCount q + int (length ds),
       summaryLines := summaryLines q @ map buildQueueSummaryLine ds\<rparr>"
  by (induction ds arbitrary: q) simp_all

lemma shiftSummaryLines_eq: "0 \<le> cp \<Longrightarrow> shiftSummaryLines cp ls = lastN (nat cp) ls"
proof (induction ls)
  case Nil
  then show ?case by (simp add: lastN_def)
next
  case (Cons l ls)
  show ?case
  proof (cases "int (length (l # ls)) > cp")
    case True
    then have "nat cp \<le> length ls" using Cons.prems by simp
    then have "Suc (length ls) - nat cp = Suc (length ls - nat cp)" by (rule Suc_diff_le)
    then show ?thesis using True Cons by (simp add: lastN_def)
  next
    case False
    then have "Suc (length ls) - nat cp = 0" by simp
    then show ?thesis using False by (simp add: lastN_def)
  qed
qed


lemma lastN_length: "length (lastN n xs) \<le> n"
  unfolding lastN_def length_drop by arith

lemma summarize_not_new: "js ''summarize'' \<noteq> js ''new''"
  by (simp add: js_def)

text \<open>
  Claim C6. An enqueue that finds the queue at capacity under the policy
  \<open>"summarize"\<close> evicts the oldest items, and exactly as many as it takes for the new
  item to fit: evicting fewer leaves the sequence over capacity. The dropped count grows
  by the number evicted. Each evicted item adds its summary line: the words of its
  summary (of its payload when the summary is missing or blank) joined by single
  spaces, at most 160 characters, ending in an ellipsis when cut. The list of summary
  lines keeps its last \<open>cap\<close> entries.
\<close>

theorem evict_oldest_and_summarize:
  assumes g: "getAnnounceQueue store key settings = g"
    and cap: "0 < cap g" "cap g \<le> int (length (items g))"
    and pol: "dropPolicy g = js ''summarize''"
  shows "\<exists>q1. enqueueAnnounce store key item settings now = (store(key \<mapsto> q1), True)
     \<and> items q1 = drop (length (items g) + 1 - nat (cap g)) (items g) @ [item]
     \<and> int (length (items q1)) = cap g
     \<and> (\<forall>j. (int (length (drop j (items g) @ [item])) \<le> cap g)
                = (length (items g) + 1 - nat (cap g) \<le> j))
     \<and> droppedCount q1 = droppedCount g + int (length (items g) + 1 - nat (cap g))
     \<and> summaryLines q1 =
           lastN (nat (cap g))
             (summaryLines g @
              map specSummaryLine (take (length (items g) + 1 - nat (cap g)) (items g)))
     \<and> length (summaryLines q1) \<le> nat (cap g)
     \<and> (\<forall>l \<in> set (map specSummaryLine (items g)). length l \<le> 160)"
proof -
  let ?k = "length (items g) + 1 - nat (cap g)"
  let ?queue = "g\<lparr>lastEnqueuedAt := now\<rparr>"
  let ?lines = "summaryLines g @ map specSummaryLine (take ?k (items g))"
  let ?q1 = "?queue\<lparr>droppedCount := droppedCount g + int ?k,
                     summaryLines := lastN (nat (cap g)) ?lines,
                     items := drop ?k (items g) @ [item]\<rparr>"
  have k: "nat (int (length (items g)) - cap g + 1) = ?k"
    using cap by linarith
  have sd: "summarizeDropped (take ?k (items g)) (?queue\<lparr>items := drop ?k (items g)\<rparr>)
              = ?queue\<lparr>items := drop ?k (items g),
                        droppedCount := droppedCount g + int ?k,
                        summaryLines := ?lines\<rparr>"
  proof -
    have "length (take ?k (items g)) = ?k" using cap by simp
    then show ?thesis
      by (simp add: summarizeDropped_eq buildQueueSummaryLine_spec)
  qed
  have sh: "shiftSummaryLines (cap g) ?lines = lastN (nat (cap g)) ?lines"
    using cap by (intro shiftSummaryLines_eq) simp
  have e: "enqueueAnnounce store key item settings now = (store(key \<mapsto> ?q1), True)"
    unfolding enqueueAnnounce_def g
    using cap pol summarize_not_new sd sh by (simp add: Let_def k)
  have len: "int (length (items ?q1)) = cap g" using cap by (simp; linarith)
  have least: "(int (length (drop j (items g) @ [item])) \<le> cap g) = (?k \<le> j)" for j
    using cap by (simp; linarith)
  have nl: "length (summaryLines ?q1) \<le> nat (cap g)"
    using lastN_length [of "nat (cap g)" ?lines] by simp
  have "\<forall>l \<in> set (map specSummaryLine (items g)). length l \<le> 160"
    using specSummaryLine_length by simp
  then show ?thesis
    using e len least nl by (intro exI [of _ ?q1]) simp
qed


theorem evict_oldest_and_summarize_witness:
  "\<exists>q1. enqueueAnnounce
      [js ''k'' \<mapsto> \<lparr>items = [announce ''A'' ''whatsapp'' ''+1'' None, announce ''B'' ''whatsapp'' ''+1'' None],
                    draining = False, lastEnqueuedAt = 2,
                    mode = js ''followup'', debounceMs = 0, cap = 2, dropPolicy = js ''summarize'',
                    droppedCount = 0, summaryLines = []\<rparr>]
      (js ''k'') (announce ''C'' ''whatsapp'' ''+1'' None) (queueSettings ''followup'' 0 2 ''summarize'') 3
      = ([js ''k'' \<mapsto> q1], True)
    \<and> items q1 = [announce ''B'' ''whatsapp'' ''+1'' None, announce ''C'' ''whatsapp'' ''+1'' None]
    \<and> droppedCount q1 = 1
    \<and> summaryLines q1 = [specSummaryLine (announce ''A'' ''whatsapp'' ''+1'' None)]"
proof -
  let ?g = "\<lparr>items = [announce ''A'' ''whatsapp'' ''+1'' None, announce ''B'' ''whatsapp'' ''+1'' None],
                    draining = False, lastEnqueuedAt = 2,
                    mode = js ''followup'', debounceMs = 0, cap = 2, dropPolicy = js ''summarize'',
                    droppedCount = 0, summaryLines = []\<rparr>"
  let ?store = "[js ''k'' \<mapsto> ?g]"
  let ?settings = "queueSettings ''followup'' 0 2 ''summarize''"
  let ?item = "announce ''C'' ''whatsapp'' ''+1'' None"
  have g: "getAnnounceQueue ?store (js ''k'') ?settings = ?g"
    by (simp add: getAnnounceQueue_def queueSettings_def)
  have c: "0 < cap ?g" "cap ?g \<le> int (length (items ?g))" "dropPolicy ?g = js ''summarize''"
    by simp_all
  obtain q1 where e: "enqueueAnnounce ?store (js ''k'') ?item ?settings 3 = (?store(js ''k'' \<mapsto> q1), True)"
    and i: "items q1 = drop (length (items ?g) + 1 - nat (cap ?g)) (items ?g) @ [?item]"
    and d: "droppedCount q1 = droppedCount ?g + int (length (items ?g) + 1 - nat (cap ?g))"
    and l: "summaryLines q1 = lastN (nat (cap ?g))
             (summaryLines ?g @ map specSummaryLine (take (length (items ?g) + 1 - nat (cap ?g)) (items ?g)))"
    using evict_oldest_and_summarize [OF g c, of ?item 3] by blast
  have "enqueueAnnounce ?store (js ''k'') ?item ?settings 3 = ([js ''k'' \<mapsto> q1], True)"
    using e by simp
  moreover have "items q1 = [announce ''B'' ''whatsapp'' ''+1'' None, ?item]"
    using i by simp
  moreover have "droppedCount q1 = 1" using d by simp
  moreover have "summaryLines q1 = [specSummaryLine (announce ''A'' ''whatsapp'' ''+1'' None)]"
    using l by (simp add: lastN_def)
  ultimately show ?thesis by blast
qed

section \<open>Properties of the debounce wait\<close>

lemma enqueueAnnounce_key: "\<exists>q. fst (enqueueAnnounce store key item settings now) key = Some q"
  by (simp add: enqueueAnnounce_def Let_def)

lemma applyCalls_key: "store key = Some q \<Longrightarrow> \<exists>q1. applyCalls key calls store key = Some q1"
proof (induction calls arbitrary: store q)
  case Nil
  then show ?case by (simp add: applyCalls_def)
next
  case (Cons c calls)
  obtain q' where "fst (enqueueAnnounce store key (callItem c) (callSettings c) (callAt c)) key = Some q'"
    using enqueueAnnounce_key by blast
  then show ?case
    using Cons.IH [of "fst (enqueueAnnounce store key (callItem c) (callSettings c) (callAt c))" q']
    by (simp add: applyCalls_def)
qed

lemma applyCalls_append: "applyCalls key (xs @ ys) store = applyCalls key ys (applyCalls key xs store)"
  by (simp add: applyCalls_def)

lemma waitLoop_returns:
  assumes "waitLoop d key store now calls = (t, store1, rest)" "store key = Some q"
  shows "\<exists>q1 ran. store1 key = Some q1 \<and> d \<le> t - lastEnqueuedAt q1 \<and> now \<le> t
            \<and> calls = ran @ rest \<and> store1 = applyCalls key ran store"
  using assms
proof (induction d key store now calls arbitrary: q rule: waitLoop.induct)
  case (1 d key store now calls)
  show ?case
  proof (cases "d \<le> now - lastEnqueuedAt q")
    case True
    then have "waitLoop d key store now calls = (now, store, calls)"
      using "1.prems"(2) by (simp add: waitLoop_done)
    then have "t = now" "store1 = store" "rest = calls" using "1.prems"(1) by simp_all
    then show ?thesis using True "1.prems"(2) by (simp add: applyCalls_def)
  next
    case False
    let ?wake = "now + (d - (now - lastEnqueuedAt q))"
    let ?due = "takeWhile (\<lambda>c. callAt c \<le> ?wake) calls"
    let ?later = "dropWhile (\<lambda>c. callAt c \<le> ?wake) calls"
    let ?store = "applyCalls key ?due store"
    have unf: "waitLoop d key store now calls = waitLoop d key ?store ?wake ?later"
      using "1.prems"(2) False by (subst waitLoop.simps) (simp add: Let_def)
    obtain q' where q': "?store key = Some q'"
      using applyCalls_key [of store key q ?due] "1.prems"(2) by blast
    have "\<exists>q1 ran. store1 key = Some q1 \<and> d \<le> t - lastEnqueuedAt q1 \<and> ?wake \<le> t
            \<and> ?later = ran @ rest \<and> store1 = applyCalls key ran ?store"
      by (rule "1.IH" [OF "1.prems"(2) refl False refl _ q']) (use unf "1.prems"(1) in simp)
    then obtain q1 ran where r: "store1 key = Some q1" "d \<le> t - lastEnqueuedAt q1" "?wake \<le> t"
      "?later = ran @ rest" "store1 = applyCalls key ran ?store" by blast
    have "calls = (?due @ ran) @ rest" using r(4) by (metis append.assoc takeWhile_dropWhile_id)
    moreover have "store1 = applyCalls key (?due @ ran) store"
      using r(5) by (simp add: applyCalls_append)
    moreover have "now \<le> t" using r(3) False by simp
    ultimately show ?thesis using r(1,2) by blast
  qed
qed

text \<open>
  Claim C7. The debounce wait always returns (the function is total), and when it
  returns at clock \<open>t\<close> the quiet period has elapsed for the \<open>lastEnqueuedAt\<close> the queue has
  then, after the enqueue calls that ran during the sleeps: \<open>t - lastEnqueuedAt\<close> is at
  least the debounce. With a debounce of zero (or less) it returns at once, with the
  store untouched.
\<close>

theorem debounce_wait_returns_after_quiet_period:
  assumes "store key = Some q" "lastEnqueuedAt q \<le> now"
    and "waitForQueueDebounce store key now calls = (t, store1, rest)"
  shows "\<exists>q1 ran. store1 key = Some q1
           \<and> calls = ran @ rest \<and> store1 = applyCalls key ran store
           \<and> max 0 (debounceMs q) \<le> t - lastEnqueuedAt q1
           \<and> now \<le> t
           \<and> (debounceMs q \<le> 0 \<longrightarrow> t = now \<and> store1 = store \<and> rest = calls)"
proof (cases "debounceMs q \<le> 0")
  case True
  then have "t = now" "store1 = store" "rest = calls"
    using assms by (simp_all add: waitForQueueDebounce_def Let_def)
  then show ?thesis using True assms by (intro exI [of _ q] exI [of _ "[]"]) (simp add: applyCalls_def)
next
  case False
  then have "waitLoop (debounceMs q) key store now calls = (t, store1, rest)"
    using assms by (simp add: waitForQueueDebounce_def Let_def max_def)
  then have "\<exists>q1 ran. store1 key = Some q1 \<and> debounceMs q \<le> t - lastEnqueuedAt q1 \<and> now \<le> t
            \<and> calls = ran @ rest \<and> store1 = applyCalls key ran store"
    using assms(1) by (rule waitLoop_returns)
  then show ?thesis using False by (auto simp: max_def)
qed


theorem debounce_wait_returns_after_quiet_period_witness:
  "\<exists>store1 q1.
     waitForQueueDebounce
       [js ''k'' \<mapsto> \<lparr>items = [announce ''A'' ''whatsapp'' ''+1'' None], draining = True,
                     lastEnqueuedAt = 100, mode = js ''collect'', debounceMs = 50, cap = 20,
                     dropPolicy = js ''summarize'', droppedCount = 0, summaryLines = []\<rparr>]
       (js ''k'') 110
       [\<lparr>callAt = 120, callItem = announce ''B'' ''whatsapp'' ''+1'' None,
         callSettings = \<lparr>mode_s = js ''collect'', debounceMs_s = None, cap_s = None, dropPolicy_s = None\<rparr>\<rparr>]
       = (170, store1, [])
     \<and> store1 (js ''k'') = Some q1 \<and> lastEnqueuedAt q1 = 120 \<and> 50 \<le> 170 - lastEnqueuedAt q1"
proof -
  let ?q = "\<lparr>items = [announce ''A'' ''whatsapp'' ''+1'' None], draining = True,
                     lastEnqueuedAt = 100, mode = js ''collect'', debounceMs = 50, cap = 20,
                     dropPolicy = js ''summarize'', droppedCount = 0, summaryLines = []\<rparr>"
  let ?S = "[js ''k'' \<mapsto> ?q]"
  let ?c = "\<lparr>callAt = 120, callItem = announce ''B'' ''whatsapp'' ''+1'' None,
         callSettings = \<lparr>mode_s = js ''collect'', debounceMs_s = None, cap_s = None, dropPolicy_s = None\<rparr>\<rparr>"
  define S1 where "S1 = applyCalls (js ''k'') [?c] ?S"
  obtain q1 where q1: "S1 (js ''k'') = Some q1" "lastEnqueuedAt q1 = 120"
    by (simp add: S1_def applyCalls_def enqueueAnnounce_def getAnnounceQueue_def Let_def)
  have k: "?S (js ''k'') = Some ?q" by simp
  have w1: "waitLoop 50 (js ''k'') ?S 110 [?c] = waitLoop 50 (js ''k'') S1 150 []"
    using waitLoop_sleep [where store = ?S and key = "js ''k''" and q = ?q and debounce = 50
               and now = 110 and calls = "[?c]"]
    by (simp add: S1_def)
  have w2: "waitLoop 50 (js ''k'') S1 150 [] = waitLoop 50 (js ''k'') S1 170 []"
    using waitLoop_sleep [where store = S1 and key = "js ''k''" and q = q1 and debounce = 50
               and now = 150 and calls = "[]"] q1
    by (simp add: applyCalls_def)
  have w3: "waitLoop 50 (js ''k'') S1 170 [] = (170, S1, [])"
    using waitLoop_done [where store = S1 and key = "js ''k''" and q = q1 and debounce = 50
               and now = 170 and calls = "[]"] q1
    by simp
  have w: "waitForQueueDebounce ?S (js ''k'') 110 [?c] = (170, S1, [])"
    using w1 w2 w3 by (simp add: waitForQueueDebounce_def)
  have "lastEnqueuedAt ?q \<le> 110" by simp
  from debounce_wait_returns_after_quiet_period [OF k this w]
  have "max 0 (debounceMs ?q) \<le> 170 - lastEnqueuedAt q1" using q1 by auto
  then show ?thesis using w q1 by simp
qed

section \<open>Every reachable runtime is well formed\<close>

lemma takeTask_Some:
  "takeTask key pt ts = Some (force, ts1) \<Longrightarrow>
     \<exists>a b. ts = a @ (key, pt, force) # b \<and> ts1 = a @ b"
proof (induction ts arbitrary: ts1)
  case Nil
  then show ?case by simp
next
  case (Cons t ts)
  obtain k p f where t: "t = (k, p, f)" by (cases t)
  show ?case
  proof (cases "k = key \<and> p = pt")
    case True
    then have "force = f" "ts1 = ts" using Cons.prems t by simp_all
    then show ?thesis using True t by (intro exI [of _ "[]"] exI [of _ ts]) simp
  next
    case False
    then obtain ts2 where r: "takeTask key pt ts = Some (force, ts2)" "ts1 = t # ts2"
      using Cons.prems t by (auto split: option.splits)
    from Cons.IH [OF r(1)] obtain a b where "ts = a @ (key, pt, force) # b" "ts2 = a @ b" by blast
    then show ?thesis using r(2) by (intro exI [of _ "t # a"] exI [of _ b]) simp
  qed
qed

lemma takeTask_None:
  "takeTask key pt ts = None \<Longrightarrow> (key, pt, force) \<notin> set ts"
  by (induction ts) (auto split: if_splits option.splits)

lemma wellFormedD:
  assumes "wellFormed R"
  shows "distinct (map fst (drains R))"
    and "\<forall>key. (key \<in> fst ` set (drains R)) = (\<exists>q. queues R key = Some q \<and> draining q)"
    and "\<forall>key q. queues R key = Some q \<and> \<not> draining q \<longrightarrow> items q \<noteq> []"
    and "\<forall>key force q. (key, AwaitDebounce, force) \<in> set (drains R) \<and> queues R key = Some q
            \<longrightarrow> drainPending q"
  using assms unfolding wellFormed_def by fast+

lemma wellFormedI:
  assumes "distinct (map fst (drains R))"
    and "\<forall>key. (key \<in> fst ` set (drains R)) = (\<exists>q. queues R key = Some q \<and> draining q)"
    and "\<forall>key q. queues R key = Some q \<and> \<not> draining q \<longrightarrow> items q \<noteq> []"
    and "\<forall>key force q. (key, AwaitDebounce, force) \<in> set (drains R) \<and> queues R key = Some q
            \<longrightarrow> drainPending q"
  shows "wellFormed R"
  unfolding wellFormed_def by (intro conjI) (rule assms)+

lemma wellFormedExceptD:
  assumes "wellFormedExcept key store ts"
  shows "distinct (map fst ts)" and "key \<notin> fst ` set ts"
    and "\<forall>k. k \<noteq> key \<longrightarrow> (k \<in> fst ` set ts) = (\<exists>q. store k = Some q \<and> draining q)"
    and "\<forall>k q. k \<noteq> key \<and> store k = Some q \<and> \<not> draining q \<longrightarrow> items q \<noteq> []"
    and "\<forall>k force q. (k, AwaitDebounce, force) \<in> set ts \<and> store k = Some q \<longrightarrow> drainPending q"
  using assms unfolding wellFormedExcept_def by fast+

lemma wellFormedExceptI:
  assumes "distinct (map fst ts)" and "key \<notin> fst ` set ts"
    and "\<forall>k. k \<noteq> key \<longrightarrow> (k \<in> fst ` set ts) = (\<exists>q. store k = Some q \<and> draining q)"
    and "\<forall>k q. k \<noteq> key \<and> store k = Some q \<and> \<not> draining q \<longrightarrow> items q \<noteq> []"
    and "\<forall>k force q. (k, AwaitDebounce, force) \<in> set ts \<and> store k = Some q \<longrightarrow> drainPending q"
  shows "wellFormedExcept key store ts"
  unfolding wellFormedExcept_def by (intro conjI) (rule assms)+

lemma wellFormed_take:
  assumes "wellFormed R" "takeTask key pt (drains R) = Some (force, ts)"
  shows "wellFormedExcept key (queues R) ts"
    and "\<exists>q. queues R key = Some q \<and> draining q"
    and "pt = AwaitDebounce \<Longrightarrow> queues R key = Some q \<Longrightarrow> drainPending q"
proof -
  obtain a b where ab: "drains R = a @ (key, pt, force) # b" "ts = a @ b"
    using takeTask_Some [OF assms(2)] by blast
  note i = wellFormedD [OF assms(1)]
  have c1: "distinct (map fst ts)" using i(1) unfolding ab by simp
  have c2: "key \<notin> fst ` set ts" using i(1) unfolding ab by (simp add: image_Un)
  have s: "set (drains R) = insert (key, pt, force) (set ts)" unfolding ab by simp
  have f: "fst ` set (drains R) = insert key (fst ` set ts)" unfolding s by simp
  have c3: "\<forall>k. k \<noteq> key \<longrightarrow> (k \<in> fst ` set ts) = (\<exists>q. queues R k = Some q \<and> draining q)"
  proof (intro allI impI)
    fix k assume "k \<noteq> key"
    then have "(k \<in> fst ` set ts) = (k \<in> fst ` set (drains R))" unfolding f by simp
    then show "(k \<in> fst ` set ts) = (\<exists>q. queues R k = Some q \<and> draining q)"
      using i(2) by simp
  qed
  have c4: "\<forall>k q. k \<noteq> key \<and> queues R k = Some q \<and> \<not> draining q \<longrightarrow> items q \<noteq> []"
    using i(3) by fast
  have c5: "\<forall>k f q. (k, AwaitDebounce, f) \<in> set ts \<and> queues R k = Some q \<longrightarrow> drainPending q"
    using i(4) unfolding s by fast
  show "wellFormedExcept key (queues R) ts"
    using c1 c2 c3 c4 c5 by (rule wellFormedExceptI)
  have "key \<in> fst ` set (drains R)" unfolding f by simp
  then show "\<exists>q. queues R key = Some q \<and> draining q"
    using i(2) by simp
  show "drainPending q" if "pt = AwaitDebounce" "queues R key = Some q"
  proof -
    have "(key, AwaitDebounce, force) \<in> set (drains R)" unfolding s using that(1) by simp
    then show ?thesis using i(4) that(2) by fast
  qed
qed

lemma wellFormedExcept_update:
  assumes "wellFormedExcept key store ts"
  shows "wellFormedExcept key (store(key := v)) ts"
proof -
  note c = wellFormedExceptD [OF assms]
  have d3: "\<forall>k. k \<noteq> key \<longrightarrow> (k \<in> fst ` set ts) = (\<exists>q. (store(key := v)) k = Some q \<and> draining q)"
    using c(3) by simp
  have d4: "\<forall>k q. k \<noteq> key \<and> (store(key := v)) k = Some q \<and> \<not> draining q \<longrightarrow> items q \<noteq> []"
    using c(4) by auto
  have d5: "\<forall>k f q. (k, AwaitDebounce, f) \<in> set ts \<and> (store(key := v)) k = Some q \<longrightarrow> drainPending q"
  proof (intro allI impI)
    fix k f q assume a: "(k, AwaitDebounce, f) \<in> set ts \<and> (store(key := v)) k = Some q"
    then have "k \<in> fst ` set ts" by force
    then have "k \<noteq> key" using c(2) by blast
    then show "drainPending q" using a c(5) by simp
  qed
  show ?thesis
    using c(1) c(2) d3 d4 d5 by (rule wellFormedExceptI)
qed


lemma wellFormedExcept_add:
  assumes w: "wellFormedExcept key store ts"
    and q: "store key = Some q" "draining q" "pt = AwaitDebounce \<longrightarrow> drainPending q"
  shows "wellFormed \<lparr>queues = store, drains = ts @ [(key, pt, force)], sent = log\<rparr>"
proof (rule wellFormedI)
  note c = wellFormedExceptD [OF w]
  let ?R = "\<lparr>queues = store, drains = ts @ [(key, pt, force)], sent = log\<rparr>"
  show "distinct (map fst (drains ?R))" using c(1) c(2) by simp
  show "\<forall>k. (k \<in> fst ` set (drains ?R)) = (\<exists>q. queues ?R k = Some q \<and> draining q)"
  proof
    fix k
    show "(k \<in> fst ` set (drains ?R)) = (\<exists>q. queues ?R k = Some q \<and> draining q)"
    proof (cases "k = key")
      case True
      then show ?thesis using q by simp
    next
      case False
      then have "(k \<in> fst ` set ts) = (\<exists>q. store k = Some q \<and> draining q)" using c(3) by simp
      then show ?thesis using False by simp
    qed
  qed
  show "\<forall>k q. queues ?R k = Some q \<and> \<not> draining q \<longrightarrow> items q \<noteq> []"
  proof (intro allI impI)
    fix k q' assume a: "queues ?R k = Some q' \<and> \<not> draining q'"
    then have "k \<noteq> key" using q by auto
    then show "items q' \<noteq> []" using a c(4) by auto
  qed
  show "\<forall>k f q. (k, AwaitDebounce, f) \<in> set (drains ?R) \<and> queues ?R k = Some q \<longrightarrow> drainPending q"
  proof (intro allI impI)
    fix k f q' assume a: "(k, AwaitDebounce, f) \<in> set (drains ?R) \<and> queues ?R k = Some q'"
    show "drainPending q'"
    proof (cases "(k, AwaitDebounce, f) \<in> set ts")
      case True
      then show ?thesis using a c(5) by auto
    next
      case False
      then have "k = key" "pt = AwaitDebounce" using a by auto
      then show ?thesis using a q by auto
    qed
  qed
qed

lemma wellFormedExcept_gone:
  assumes w: "wellFormedExcept key store ts" and q: "store key = None"
  shows "wellFormed \<lparr>queues = store, drains = ts, sent = log\<rparr>"
proof (rule wellFormedI)
  note c = wellFormedExceptD [OF w]
  let ?R = "\<lparr>queues = store, drains = ts, sent = log\<rparr>"
  show "distinct (map fst (drains ?R))" using c(1) by simp
  show "\<forall>k. (k \<in> fst ` set (drains ?R)) = (\<exists>q. queues ?R k = Some q \<and> draining q)"
  proof
    fix k
    show "(k \<in> fst ` set (drains ?R)) = (\<exists>q. queues ?R k = Some q \<and> draining q)"
    proof (cases "k = key")
      case True
      then show ?thesis using q c(2) by simp
    next
      case False
      then have "(k \<in> fst ` set ts) = (\<exists>q. store k = Some q \<and> draining q)" using c(3) by simp
      then show ?thesis by simp
    qed
  qed
  show "\<forall>k q. queues ?R k = Some q \<and> \<not> draining q \<longrightarrow> items q \<noteq> []"
  proof (intro allI impI)
    fix k q' assume a: "queues ?R k = Some q' \<and> \<not> draining q'"
    then have "k \<noteq> key" using q by auto
    then show "items q' \<noteq> []" using a c(4) by auto
  qed
  show "\<forall>k f q. (k, AwaitDebounce, f) \<in> set (drains ?R) \<and> queues ?R k = Some q \<longrightarrow> drainPending q"
    using c(5) by simp
qed

lemma wellFormed_idle:
  assumes w: "wellFormed R" and q: "queues R key = None \<or> (\<exists>q. queues R key = Some q \<and> \<not> draining q)"
  shows "wellFormedExcept key (queues R) (drains R)"
proof (rule wellFormedExceptI)
  note i = wellFormedD [OF w]
  show "distinct (map fst (drains R))" by (rule i(1))
  have "\<not> (\<exists>q. queues R key = Some q \<and> draining q)" using q by auto
  then show "key \<notin> fst ` set (drains R)" using i(2) by simp
  show "\<forall>k. k \<noteq> key \<longrightarrow> (k \<in> fst ` set (drains R)) = (\<exists>q. queues R k = Some q \<and> draining q)"
    using i(2) by simp
  show "\<forall>k q. k \<noteq> key \<and> queues R k = Some q \<and> \<not> draining q \<longrightarrow> items q \<noteq> []"
    using i(3) by auto
  show "\<forall>k force q. (k, AwaitDebounce, force) \<in> set (drains R) \<and> queues R k = Some q \<longrightarrow> drainPending q"
    by (rule i(4))
qed


lemma wellFormed_same:
  assumes a: "queues R1 = queues R" and b: "drains R1 = drains R" and w: "wellFormed R"
  shows "wellFormed R1"
  unfolding wellFormed_def a b using w [unfolded wellFormed_def] .

lemma drainFinally_Some:
  "store key = Some q \<Longrightarrow>
     drainFinally store key =
       (if items q = [] \<and> droppedCount q = 0 then (store(key := None), False)
        else (store(key \<mapsto> q\<lparr>draining := False\<rparr>), True))"
  by (simp add: drainFinally_def Let_def)

lemma beginDrain_wellFormed:
  assumes w: "wellFormedExcept key (queues R) (drains R)"
    and q: "queues R key = Some q" "draining q"
    and b: "beginDrain R key = Some R1"
  shows "wellFormed R1"
proof (cases "drainPending q")
  case True
  then have r: "R1 = R\<lparr>drains := drains R @ [(key, AwaitDebounce, False)]\<rparr>"
    using b q by (simp add: beginDrain_def)
  have "wellFormed \<lparr>queues = queues R, drains = drains R @ [(key, AwaitDebounce, False)], sent = sent R\<rparr>"
    using w q(1) q(2) True by (intro wellFormedExcept_add) simp_all
  then show ?thesis unfolding r by (rule wellFormed_same [rotated 2]) simp_all
next
  case False
  then have e: "items q = []" by (simp add: drainPending_def)
  show ?thesis
  proof (cases "droppedCount q = 0")
    case True
    then have r: "R1 = R\<lparr>queues := (queues R)(key := None)\<rparr>"
      using b q False e by (simp add: beginDrain_def drainFinally_Some)
    have "wellFormedExcept key ((queues R)(key := None)) (drains R)"
      using w by (rule wellFormedExcept_update)
    then have "wellFormed \<lparr>queues = (queues R)(key := None), drains = drains R, sent = sent R\<rparr>"
      by (rule wellFormedExcept_gone) simp
    then show ?thesis unfolding r by (rule wellFormed_same [rotated 2]) simp_all
  next
    case False
    then have "beginDrain R key = None"
      using q \<open>\<not> drainPending q\<close> by (simp add: beginDrain_def drainFinally_Some)
    then show ?thesis using b by simp
  qed
qed

lemma endDrain_wellFormed:
  assumes w: "wellFormedExcept key (queues R) (drains R)"
    and q: "queues R key = Some q"
    and e: "endDrain R key = Some R1"
  shows "wellFormed R1"
proof (cases "items q = [] \<and> droppedCount q = 0")
  case True
  then have r: "R1 = R\<lparr>queues := (queues R)(key := None)\<rparr>"
    using e q by (simp add: endDrain_def drainFinally_Some)
  have "wellFormedExcept key ((queues R)(key := None)) (drains R)"
    using w by (rule wellFormedExcept_update)
  then have "wellFormed \<lparr>queues = (queues R)(key := None), drains = drains R, sent = sent R\<rparr>"
    by (rule wellFormedExcept_gone) simp
  then show ?thesis unfolding r by (rule wellFormed_same [rotated 2]) simp_all
next
  case False
  let ?q2 = "q\<lparr>draining := True\<rparr>"
  let ?R2 = "R\<lparr>queues := (queues R)(key \<mapsto> ?q2)\<rparr>"
  have df: "drainFinally (queues R) key = ((queues R)(key \<mapsto> q\<lparr>draining := False\<rparr>), True)"
    using drainFinally_Some [of "queues R" key q] q False by auto
  have "endDrain R key = beginDrain ?R2 key"
    by (simp add: endDrain_def df scheduleAnnounceDrain_def)
  then have b: "beginDrain ?R2 key = Some R1" using e by simp
  have "wellFormedExcept key ((queues R)(key \<mapsto> ?q2)) (drains R)"
    using w by (rule wellFormedExcept_update)
  then have w2: "wellFormedExcept key (queues ?R2) (drains ?R2)" by simp
  have q2: "queues ?R2 key = Some ?q2" "draining ?q2" by simp_all
  show ?thesis using w2 q2 b by (rule beginDrain_wellFormed)
qed

lemma enqueueAnnounce_shape:
  "\<exists>q1. fst (enqueueAnnounce store key item settings now) = store(key \<mapsto> q1)
        \<and> items q1 \<noteq> []
        \<and> draining q1 = (case store key of None \<Rightarrow> False | Some q \<Rightarrow> draining q)"
proof -
  let ?g = "getAnnounceQueue store key settings"
  have d: "draining ?g = (case store key of None \<Rightarrow> False | Some q \<Rightarrow> draining q)"
    by (simp add: getAnnounceQueue_def split: option.splits)
  have s: "draining (summarizeDropped ds q) = draining q" for ds q
    by (simp add: summarizeDropped_eq)
  show ?thesis
    using d s by (auto simp: enqueueAnnounce_def Let_def)
qed

lemma wellFormed_put:
  assumes w: "wellFormed R" and i: "items q1 \<noteq> []"
    and d: "draining q1 = (case queues R key of None \<Rightarrow> False | Some q \<Rightarrow> draining q)"
  shows "wellFormed (R\<lparr>queues := (queues R)(key \<mapsto> q1)\<rparr>)"
proof (rule wellFormedI)
  note c = wellFormedD [OF w]
  let ?R = "R\<lparr>queues := (queues R)(key \<mapsto> q1)\<rparr>"
  show "distinct (map fst (drains ?R))" using c(1) by simp
  show "\<forall>k. (k \<in> fst ` set (drains ?R)) = (\<exists>q. queues ?R k = Some q \<and> draining q)"
  proof
    fix k
    show "(k \<in> fst ` set (drains ?R)) = (\<exists>q. queues ?R k = Some q \<and> draining q)"
    proof (cases "k = key")
      case True
      have "(key \<in> fst ` set (drains R)) = (\<exists>q. queues R key = Some q \<and> draining q)" using c(2) by simp
      then show ?thesis using True d by (cases "queues R key") simp_all
    next
      case False
      have "(k \<in> fst ` set (drains R)) = (\<exists>q. queues R k = Some q \<and> draining q)" using c(2) by simp
      then show ?thesis using False by simp
    qed
  qed
  show "\<forall>k q. queues ?R k = Some q \<and> \<not> draining q \<longrightarrow> items q \<noteq> []"
    using c(3) i by auto
  show "\<forall>k f q. (k, AwaitDebounce, f) \<in> set (drains ?R) \<and> queues ?R k = Some q \<longrightarrow> drainPending q"
  proof (intro allI impI)
    fix k f q assume a: "(k, AwaitDebounce, f) \<in> set (drains ?R) \<and> queues ?R k = Some q"
    show "drainPending q"
    proof (cases "k = key")
      case True
      then show ?thesis using a i by (simp add: drainPending_def)
    next
      case False
      then show ?thesis using a c(4) by auto
    qed
  qed
qed

lemma drainPass_draining:
  "drainPass force queue = (res, force1, queue1) \<Longrightarrow> draining queue1 = draining queue"
  by (auto simp: drainPass_def shiftAndSend_def buildSummaryPrompt_def Let_def
           split: if_splits list.splits prod.splits)


lemma step_wellFormed:
  assumes w: "wellFormed R" and s: "step e R = Some R1"
  shows "wellFormed R1"
proof (cases e)
  case (Enqueue key item settings now)
  obtain q1 where q1: "fst (enqueueAnnounce (queues R) key item settings now) = (queues R)(key \<mapsto> q1)"
      "items q1 \<noteq> []"
      "draining q1 = (case queues R key of None \<Rightarrow> False | Some q \<Rightarrow> draining q)"
    using enqueueAnnounce_shape [of "queues R" key item settings now] by blast
  have "R1 = R\<lparr>queues := (queues R)(key \<mapsto> q1)\<rparr>"
    using s Enqueue q1(1) by simp
  then show ?thesis using wellFormed_put [OF w q1(2) q1(3)] by simp
next
  case (Schedule key)
  show ?thesis
  proof (cases "queues R key")
    case None
    then have "R1 = R" using s Schedule by (simp add: scheduleAnnounceDrain_def)
    then show ?thesis using w by simp
  next
    case (Some q)
    show ?thesis
    proof (cases "draining q")
      case True
      then have "R1 = R" using s Schedule Some by (simp add: scheduleAnnounceDrain_def)
      then show ?thesis using w by simp
    next
      case False
      let ?q2 = "q\<lparr>draining := True\<rparr>"
      let ?R2 = "R\<lparr>queues := (queues R)(key \<mapsto> ?q2)\<rparr>"
      have b: "beginDrain ?R2 key = Some R1"
        using s Schedule Some False by (simp add: scheduleAnnounceDrain_def)
      have "wellFormedExcept key (queues R) (drains R)"
        using w Some False by (intro wellFormed_idle) simp_all
      then have "wellFormedExcept key ((queues R)(key \<mapsto> ?q2)) (drains R)"
        by (rule wellFormedExcept_update)
      then have w2: "wellFormedExcept key (queues ?R2) (drains ?R2)" by simp
      have q2: "queues ?R2 key = Some ?q2" "draining ?q2" by simp_all
      show ?thesis using w2 q2 b by (rule beginDrain_wellFormed)
    qed
  qed
next
  case (DebounceElapsed key)
  obtain force ts where t: "takeTask key AwaitDebounce (drains R) = Some (force, ts)"
    using s DebounceElapsed by (cases "takeTask key AwaitDebounce (drains R)") auto
  note k = wellFormed_take [OF w t]
  obtain q where q: "queues R key = Some q" "draining q" using k(2) by blast
  obtain res force1 q1 where p: "drainPass force q = (res, force1, q1)"
    by (cases "drainPass force q") auto
  have d1: "draining q1" using drainPass_draining [OF p] q(2) by simp
  have w1: "wellFormedExcept key ((queues R)(key \<mapsto> q1)) ts"
    using k(1) by (rule wellFormedExcept_update)
  show ?thesis
  proof (cases res)
    case Break
    let ?R2 = "\<lparr>queues = (queues R)(key \<mapsto> q1), drains = ts, sent = sent R\<rparr>"
    have e: "endDrain ?R2 key = Some R1"
      using s DebounceElapsed t q p Break by simp
    have w2: "wellFormedExcept key (queues ?R2) (drains ?R2)" using w1 by simp
    have q2: "queues ?R2 key = Some q1" by simp
    show ?thesis using w2 q2 e by (rule endDrain_wellFormed)
  next
    case (Send msg)
    have r: "R1 = \<lparr>queues = (queues R)(key \<mapsto> q1), drains = ts @ [(key, AwaitSend, force1)],
                   sent = sent R @ [msg]\<rparr>"
      using s DebounceElapsed t q p Send by simp
    show ?thesis unfolding r using w1 by (rule wellFormedExcept_add [where q = q1]) (simp_all add: d1)
  qed
next
  case (SendResolved key)
  obtain force ts where t: "takeTask key AwaitSend (drains R) = Some (force, ts)"
    using s SendResolved by (cases "takeTask key AwaitSend (drains R)") auto
  note k = wellFormed_take [OF w t]
  obtain q where q: "queues R key = Some q" "draining q" using k(2) by blast
  show ?thesis
  proof (cases "drainPending q")
    case True
    have r: "R1 = R\<lparr>drains := ts @ [(key, AwaitDebounce, force)]\<rparr>"
      using s SendResolved t q True by simp
    have "wellFormed \<lparr>queues = queues R, drains = ts @ [(key, AwaitDebounce, force)], sent = sent R\<rparr>"
      using k(1) by (rule wellFormedExcept_add [where q = q]) (simp_all add: q True)
    then show ?thesis unfolding r by (rule wellFormed_same [rotated 2]) simp_all
  next
    case False
    let ?R2 = "R\<lparr>drains := ts\<rparr>"
    have e: "endDrain ?R2 key = Some R1" using s SendResolved t q False by simp
    have w2: "wellFormedExcept key (queues ?R2) (drains ?R2)" using k(1) by simp
    have q2: "queues ?R2 key = Some q" using q by simp
    show ?thesis using w2 q2 e by (rule endDrain_wellFormed)
  qed
next
  case (SendRejected key)
  obtain force ts where t: "takeTask key AwaitSend (drains R) = Some (force, ts)"
    using s SendRejected by (cases "takeTask key AwaitSend (drains R)") auto
  note k = wellFormed_take [OF w t]
  obtain q where q: "queues R key = Some q" "draining q" using k(2) by blast
  let ?R2 = "R\<lparr>drains := ts\<rparr>"
  have e: "endDrain ?R2 key = Some R1" using s SendRejected t by simp
  have w2: "wellFormedExcept key (queues ?R2) (drains ?R2)" using k(1) by simp
  have q2: "queues ?R2 key = Some q" using q by simp
  show ?thesis using w2 q2 e by (rule endDrain_wellFormed)
qed

lemma wellFormed_initial: "wellFormed initialRuntime"
  by (simp add: wellFormed_def initialRuntime_def)

lemma run_wellFormed: "wellFormed R \<Longrightarrow> run es R = Some R1 \<Longrightarrow> wellFormed R1"
proof (induction es arbitrary: R)
  case Nil
  then show ?case by simp
next
  case (Cons e es)
  then obtain R2 where r: "step e R = Some R2" "run es R2 = Some R1"
    by (cases "step e R") auto
  have "wellFormed R2" using Cons.prems(1) r(1) by (rule step_wellFormed)
  then show ?case using r(2) by (rule Cons.IH)
qed

section \<open>Lifecycle of a queue and its drain\<close>

lemma liveDrains_distinct:
  "distinct (map fst ts) \<Longrightarrow>
     length (filter (\<lambda>t. fst t = key) ts) = (if key \<in> fst ` set ts then 1 else 0)"
proof (induction ts)
  case Nil
  then show ?case by simp
next
  case (Cons t ts)
  then have IH: "length (filter (\<lambda>t. fst t = key) ts) = (if key \<in> fst ` set ts then 1 else 0)"
    and n: "fst t \<notin> fst ` set ts" by simp_all
  show ?case
  proof (cases "fst t = key")
    case True
    then have "key \<notin> fst ` set ts" using n by simp
    then show ?thesis using IH True by simp
  next
    case False
    then show ?thesis using IH by auto
  qed
qed

lemma endDrain_quiescent:
  assumes "queues R key = Some q" "items q = []" "droppedCount q = 0"
  shows "endDrain R key = Some (R\<lparr>queues := (queues R)(key := None)\<rparr>)"
  using assms drainFinally_Some [of "queues R" key q] by (simp add: endDrain_def)

lemma enqueueAnnounce_fresh:
  assumes "store key = None"
  shows "enqueueAnnounce store key item settings now =
           (store(key \<mapsto>
              \<lparr>items = [item], draining = False, lastEnqueuedAt = now, mode = mode_s settings,
               debounceMs = (case debounceMs_s settings of Some d \<Rightarrow> max 0 d | None \<Rightarrow> 1000),
               cap = (case cap_s settings of Some c \<Rightarrow> if c > 0 then c else 20 | None \<Rightarrow> 20),
               dropPolicy = (case dropPolicy_s settings of Some p \<Rightarrow> p | None \<Rightarrow> js ''summarize''),
               droppedCount = 0, summaryLines = []\<rparr>), True)"
proof -
  let ?g = "getAnnounceQueue store key settings"
  have g: "?g = \<lparr>items = [], draining = False, lastEnqueuedAt = 0, mode = mode_s settings,
               debounceMs = (case debounceMs_s settings of Some d \<Rightarrow> max 0 d | None \<Rightarrow> 1000),
               cap = (case cap_s settings of Some c \<Rightarrow> if c > 0 then c else 20 | None \<Rightarrow> 20),
               dropPolicy = (case dropPolicy_s settings of Some p \<Rightarrow> p | None \<Rightarrow> js ''summarize''),
               droppedCount = 0, summaryLines = []\<rparr>"
    using assms by (simp add: getAnnounceQueue_def)
  have c: "0 < cap ?g" unfolding g by (simp split: option.splits)
  have "int (length (items ?g)) < cap ?g" using c unfolding g by simp
  from enqueueAnnounce_below_cap [OF refl this]
  show ?thesis unfolding g by simp
qed

text \<open>
  Claim C8. In every reachable runtime, a queue that is in the store with no items and
  no dropped count is draining and its drain is suspended in its last delivery; when
  that delivery resolves or is rejected, the same step removes the key from the store
  and ends the drain. Whenever a drain ends on an empty queue without dropped count,
  the key is deleted. A queue whose drain is not running always holds an item. An
  enqueue under a key that is absent creates a fresh state: the new item alone, a
  dropped count of zero, no summary lines, and settings taken from the call or the
  defaults.
\<close>

theorem quiescent_queue_is_removed:
  assumes r: "run es initialRuntime = Some R"
  shows "(\<forall>q. queues R key = Some q \<and> items q = [] \<and> droppedCount q = 0 \<longrightarrow>
            draining q \<and> (\<exists>force. (key, AwaitSend, force) \<in> set (drains R))
            \<and> step (SendResolved key) R = Some (R\<lparr>queues := (queues R)(key := None),
                    drains := filter (\<lambda>t. fst t \<noteq> key) (drains R)\<rparr>)
            \<and> step (SendRejected key) R = Some (R\<lparr>queues := (queues R)(key := None),
                    drains := filter (\<lambda>t. fst t \<noteq> key) (drains R)\<rparr>))
     \<and> (\<forall>q. queues R key = Some q \<and> \<not> draining q \<longrightarrow> items q \<noteq> [])
     \<and> (\<forall>R0 q. queues R0 key = Some q \<and> items q = [] \<and> droppedCount q = 0 \<longrightarrow>
            endDrain R0 key = Some (R0\<lparr>queues := (queues R0)(key := None)\<rparr>))
     \<and> (queues R key = None \<longrightarrow>
            (\<forall>item settings now.
               step (Enqueue key item settings now) R =
                 Some (R\<lparr>queues := (queues R)(key \<mapsto>
                   \<lparr>items = [item], draining = False, lastEnqueuedAt = now, mode = mode_s settings,
                    debounceMs = (case debounceMs_s settings of Some d \<Rightarrow> max 0 d | None \<Rightarrow> 1000),
                    cap = (case cap_s settings of Some c \<Rightarrow> if c > 0 then c else 20 | None \<Rightarrow> 20),
                    dropPolicy = (case dropPolicy_s settings of Some p \<Rightarrow> p | None \<Rightarrow> js ''summarize''),
                    droppedCount = 0, summaryLines = []\<rparr>)\<rparr>)))"
proof -
  have w: "wellFormed R" using wellFormed_initial r by (rule run_wellFormed)
  note i = wellFormedD [OF w]
  have a: "draining q \<and> (\<exists>force. (key, AwaitSend, force) \<in> set (drains R))
            \<and> step (SendResolved key) R = Some (R\<lparr>queues := (queues R)(key := None),
                    drains := filter (\<lambda>t. fst t \<noteq> key) (drains R)\<rparr>)
            \<and> step (SendRejected key) R = Some (R\<lparr>queues := (queues R)(key := None),
                    drains := filter (\<lambda>t. fst t \<noteq> key) (drains R)\<rparr>)"
    if h: "queues R key = Some q \<and> items q = [] \<and> droppedCount q = 0" for q
  proof -
    have q: "queues R key = Some q" "items q = []" "droppedCount q = 0" using h by simp_all
    have d: "draining q" using i(3) q by auto
    then have "key \<in> fst ` set (drains R)" using i(2) q by auto
    then obtain pt force where t: "(key, pt, force) \<in> set (drains R)" by force
    have np: "\<not> drainPending q" using q by (simp add: drainPending_def)
    have "pt \<noteq> AwaitDebounce" using i(4) t q(1) np by auto
    then have pt: "pt = AwaitSend" by (cases pt) simp_all
    have "takeTask key AwaitSend (drains R) \<noteq> None"
    proof
      assume "takeTask key AwaitSend (drains R) = None"
      then have "(key, AwaitSend, force) \<notin> set (drains R)" by (rule takeTask_None)
      then show False using t pt by simp
    qed
    then obtain f ts where tk: "takeTask key AwaitSend (drains R) = Some (f, ts)"
      by (cases "takeTask key AwaitSend (drains R)") auto
    obtain x y where xy: "drains R = x @ (key, AwaitSend, f) # y" "ts = x @ y"
      using takeTask_Some [OF tk] by blast
    have "key \<notin> fst ` set ts" using i(1) unfolding xy by (simp add: image_Un)
    then have "filter (\<lambda>t. fst t \<noteq> key) (x @ y) = x @ y"
      unfolding xy by (intro filter_True) force
    then have fl: "filter (\<lambda>t. fst t \<noteq> key) (drains R) = ts" unfolding xy by simp
    have e: "endDrain (R\<lparr>drains := ts\<rparr>) key = Some (R\<lparr>drains := ts, queues := (queues R)(key := None)\<rparr>)"
      using endDrain_quiescent [of "R\<lparr>drains := ts\<rparr>" key q] q by simp
    have s1: "step (SendResolved key) R = Some (R\<lparr>queues := (queues R)(key := None),
                    drains := filter (\<lambda>t. fst t \<noteq> key) (drains R)\<rparr>)"
      using tk q np e unfolding fl by simp
    have s2: "step (SendRejected key) R = Some (R\<lparr>queues := (queues R)(key := None),
                    drains := filter (\<lambda>t. fst t \<noteq> key) (drains R)\<rparr>)"
      using tk e unfolding fl by simp
    show ?thesis using d t pt s1 s2 by blast
  qed
  have b: "\<forall>q. queues R key = Some q \<and> \<not> draining q \<longrightarrow> items q \<noteq> []"
    using i(3) by auto
  have c: "\<forall>R0 q. queues R0 key = Some q \<and> items q = [] \<and> droppedCount q = 0 \<longrightarrow>
            endDrain R0 key = Some (R0\<lparr>queues := (queues R0)(key := None)\<rparr>)"
    using endDrain_quiescent by blast
  have d: "step (Enqueue key item settings now) R =
                 Some (R\<lparr>queues := (queues R)(key \<mapsto>
                   \<lparr>items = [item], draining = False, lastEnqueuedAt = now, mode = mode_s settings,
                    debounceMs = (case debounceMs_s settings of Some d \<Rightarrow> max 0 d | None \<Rightarrow> 1000),
                    cap = (case cap_s settings of Some c \<Rightarrow> if c > 0 then c else 20 | None \<Rightarrow> 20),
                    dropPolicy = (case dropPolicy_s settings of Some p \<Rightarrow> p | None \<Rightarrow> js ''summarize''),
                    droppedCount = 0, summaryLines = []\<rparr>)\<rparr>)"
    if "queues R key = None" for item settings now
    using enqueueAnnounce_fresh [of "queues R" key item settings now] that by simp
  show ?thesis
    using a b c d by (intro conjI allI impI) blast+
qed

lemma run_example:
  "run [Enqueue (js ''k'') (announce ''A'' ''whatsapp'' ''+1'' None) (queueSettings ''followup'' 0 20 ''summarize'') 1,
        Schedule (js ''k''), DebounceElapsed (js ''k'')] initialRuntime
   = Some \<lparr>queues = [js ''k'' \<mapsto>
               \<lparr>items = [], draining = True, lastEnqueuedAt = 1, mode = js ''followup'',
                debounceMs = 0, cap = 20, dropPolicy = js ''summarize'', droppedCount = 0,
                summaryLines = []\<rparr>],
             drains = [(js ''k'', AwaitSend, False)],
             sent = [announce ''A'' ''whatsapp'' ''+1'' None]\<rparr>"
proof -
  have m: "js ''followup'' \<noteq> js ''collect''" by (simp add: js_def)
  show ?thesis
    using m
    by (simp add: initialRuntime_def enqueueAnnounce_def getAnnounceQueue_def queueSettings_def
          scheduleAnnounceDrain_def beginDrain_def drainPending_def drainPass_def shiftAndSend_def
          buildSummaryPrompt_def truthy_def Let_def)
qed

theorem quiescent_queue_is_removed_witness:
  "\<exists>R q. run [Enqueue (js ''k'') (announce ''A'' ''whatsapp'' ''+1'' None) (queueSettings ''followup'' 0 20 ''summarize'') 1,
              Schedule (js ''k''), DebounceElapsed (js ''k'')] initialRuntime = Some R
     \<and> queues R (js ''k'') = Some q \<and> items q = [] \<and> droppedCount q = 0 \<and> draining q
     \<and> (js ''k'', AwaitSend, False) \<in> set (drains R)
     \<and> step (SendResolved (js ''k'')) R = Some (R\<lparr>queues := Map.empty, drains := []\<rparr>)"
proof -
  let ?q = "\<lparr>items = [], draining = True, lastEnqueuedAt = 1, mode = js ''followup'',
                debounceMs = 0, cap = 20, dropPolicy = js ''summarize'', droppedCount = 0,
                summaryLines = []\<rparr>"
  let ?R = "\<lparr>queues = [js ''k'' \<mapsto> ?q], drains = [(js ''k'', AwaitSend, False)],
             sent = [announce ''A'' ''whatsapp'' ''+1'' None]\<rparr>"
  have q: "queues ?R (js ''k'') = Some ?q \<and> items ?q = [] \<and> droppedCount ?q = 0" by simp
  have "step (SendResolved (js ''k'')) ?R = Some (?R\<lparr>queues := (queues ?R)(js ''k'' := None),
                    drains := filter (\<lambda>t. fst t \<noteq> js ''k'') (drains ?R)\<rparr>)"
    using quiescent_queue_is_removed [OF run_example, of "js ''k''"] q by blast
  then have "step (SendResolved (js ''k'')) ?R = Some (?R\<lparr>queues := Map.empty, drains := []\<rparr>)"
    by simp
  then show ?thesis using run_example by (intro exI [of _ ?R] exI [of _ ?q]) simp
qed

text \<open>
  Claim C9. In every reachable runtime a key has at most one live drain, and has one
  exactly when its queue is in the store with the draining flag set. Scheduling a drain
  for a key that is absent or already draining changes nothing and starts nothing. An
  enqueue on a draining key followed by the scheduling call leaves the list of live
  drains as it was; below capacity it appends the item to the sequence.
\<close>

theorem one_drain_per_key:
  assumes r: "run es initialRuntime = Some R"
  shows "liveDrains R key \<le> 1
     \<and> (liveDrains R key = 1) = (\<exists>q. queues R key = Some q \<and> draining q)
     \<and> (queues R key = None \<or> (\<exists>q. queues R key = Some q \<and> draining q) \<longrightarrow>
          scheduleAnnounceDrain (queues R) key = (queues R, False)
          \<and> step (Schedule key) R = Some R)
     \<and> (\<forall>q item settings now. queues R key = Some q \<and> draining q \<longrightarrow>
          (\<exists>R1 q1. step (Enqueue key item settings now) R = Some R1
             \<and> step (Schedule key) R1 = Some R1
             \<and> drains R1 = drains R \<and> liveDrains R1 key = 1
             \<and> queues R1 key = Some q1 \<and> draining q1
             \<and> (int (length (items q)) < cap q1 \<longrightarrow> items q1 = items q @ [item])))"
proof -
  have w: "wellFormed R" using wellFormed_initial r by (rule run_wellFormed)
  note i = wellFormedD [OF w]
  have l: "liveDrains R key = (if key \<in> fst ` set (drains R) then 1 else 0)"
    unfolding liveDrains_def using i(1) by (rule liveDrains_distinct)
  have a: "liveDrains R key \<le> 1" unfolding l by simp
  have "(key \<in> fst ` set (drains R)) = (\<exists>q. queues R key = Some q \<and> draining q)"
    using i(2) by simp
  then have b: "(liveDrains R key = 1) = (\<exists>q. queues R key = Some q \<and> draining q)"
    unfolding l by simp
  have c: "scheduleAnnounceDrain (queues R) key = (queues R, False) \<and> step (Schedule key) R = Some R"
    if "queues R key = None \<or> (\<exists>q. queues R key = Some q \<and> draining q)"
    using that by (auto simp: scheduleAnnounceDrain_def)
  have d: "\<exists>R1 q1. step (Enqueue key item settings now) R = Some R1
             \<and> step (Schedule key) R1 = Some R1
             \<and> drains R1 = drains R \<and> liveDrains R1 key = 1
             \<and> queues R1 key = Some q1 \<and> draining q1
             \<and> (int (length (items q)) < cap q1 \<longrightarrow> items q1 = items q @ [item])"
    if h: "queues R key = Some q \<and> draining q" for q item settings now
  proof -
    let ?store = "fst (enqueueAnnounce (queues R) key item settings now)"
    let ?R1 = "R\<lparr>queues := ?store\<rparr>"
    obtain q1 where q1: "?store = (queues R)(key \<mapsto> q1)" "draining q1"
      using enqueueAnnounce_shape [of "queues R" key item settings now] h by auto
    have s1: "step (Enqueue key item settings now) R = Some ?R1" by simp
    have s2: "step (Schedule key) ?R1 = Some ?R1"
      using q1 by (simp add: scheduleAnnounceDrain_def)
    have l1: "liveDrains ?R1 key = 1"
      using b h by (simp add: liveDrains_def)
    have ap: "items q1 = items q @ [item]" if "int (length (items q)) < cap q1"
    proof -
      let ?g = "getAnnounceQueue (queues R) key settings"
      have gi: "items ?g = items q" using h by simp
      have "q1 = the (?store key)" using q1(1) by simp
      moreover have "cap (the (?store key)) = cap ?g"
        by (simp add: enqueueAnnounce_def Let_def summarizeDropped_eq)
      ultimately have "int (length (items ?g)) < cap ?g" using that gi by simp
      from enqueueAnnounce_below_cap [OF refl this, of item now]
      have "?store = (queues R)(key \<mapsto> ?g\<lparr>lastEnqueuedAt := now, items := items ?g @ [item]\<rparr>)"
        by simp
      then have "q1 = ?g\<lparr>lastEnqueuedAt := now, items := items ?g @ [item]\<rparr>"
        using q1(1) by (metis fun_upd_same option.inject)
      then show ?thesis using gi by simp
    qed
    show ?thesis
      using s1 s2 l1 q1 ap by (intro exI [of _ ?R1] exI [of _ q1]) simp
  qed
  show ?thesis
    using a b c d by (intro conjI allI impI) blast+
qed

theorem one_drain_per_key_witness:
  "\<exists>R. run [Enqueue (js ''k'') (announce ''A'' ''whatsapp'' ''+1'' None) (queueSettings ''followup'' 0 20 ''summarize'') 1,
              Schedule (js ''k''), DebounceElapsed (js ''k'')] initialRuntime = Some R
     \<and> liveDrains R (js ''k'') = 1
     \<and> scheduleAnnounceDrain (queues R) (js ''k'') = (queues R, False)
     \<and> step (Schedule (js ''k'')) R = Some R"
proof -
  let ?q = "\<lparr>items = [], draining = True, lastEnqueuedAt = 1, mode = js ''followup'',
                debounceMs = 0, cap = 20, dropPolicy = js ''summarize'', droppedCount = 0,
                summaryLines = []\<rparr>"
  let ?R = "\<lparr>queues = [js ''k'' \<mapsto> ?q], drains = [(js ''k'', AwaitSend, False)],
             sent = [announce ''A'' ''whatsapp'' ''+1'' None]\<rparr>"
  have q: "\<exists>q. queues ?R (js ''k'') = Some q \<and> draining q" by simp
  note t = one_drain_per_key [OF run_example, of "js ''k''"]
  have "liveDrains ?R (js ''k'') = 1" using t q by blast
  moreover have "scheduleAnnounceDrain (queues ?R) (js ''k'') = (queues ?R, False)
          \<and> step (Schedule (js ''k'')) ?R = Some ?R" using t q by blast
  ultimately show ?thesis using run_example by (intro exI [of _ ?R]) simp
qed

section \<open>The overflow notice in individual delivery\<close>

lemma mode_literals:
  "js ''followup'' \<noteq> js ''collect''" "js ''summarize'' \<noteq> js ''new''"
  by (simp_all add: js_def)

lemma run_append: "run (es @ fs) R = (case run es R of None \<Rightarrow> None | Some R1 \<Rightarrow> run fs R1)"
  by (induction es arbitrary: R) (auto split: option.splits)

lemma buildQueueSummaryLine_A:
  "buildQueueSummaryLine (announce ''A'' ''whatsapp'' ''+1'' None) = js ''A''"
  "buildQueueSummaryLine (announce ''B'' ''whatsapp'' ''+1'' None) = js ''B''"
  by (simp_all add: buildQueueSummaryLine_def announce_def truthy_def trim_def trimStart_def
        trimEnd_def elideText_def js_def isWhiteSpace_def Let_def)

lemma overflow_followup_enqueued:
  "run [Enqueue (js ''k'') (announce ''A'' ''whatsapp'' ''+1'' None) (queueSettings ''followup'' 0 2 ''summarize'') 1,
        Schedule (js ''k''),
        Enqueue (js ''k'') (announce ''B'' ''whatsapp'' ''+1'' None) (queueSettings ''followup'' 0 2 ''summarize'') 2,
        Schedule (js ''k''),
        Enqueue (js ''k'') (announce ''C'' ''whatsapp'' ''+1'' None) (queueSettings ''followup'' 0 2 ''summarize'') 3,
        Schedule (js ''k'')] initialRuntime
   = Some \<lparr>queues = [js ''k'' \<mapsto>
               \<lparr>items = [announce ''B'' ''whatsapp'' ''+1'' None, announce ''C'' ''whatsapp'' ''+1'' None],
                draining = True, lastEnqueuedAt = 3, mode = js ''followup'',
                debounceMs = 0, cap = 2, dropPolicy = js ''summarize'', droppedCount = 1,
                summaryLines = [js ''A'']\<rparr>],
             drains = [(js ''k'', AwaitDebounce, False)], sent = []\<rparr>"
  using mode_literals
  by (simp add: initialRuntime_def enqueueAnnounce_def getAnnounceQueue_def queueSettings_def
        scheduleAnnounceDrain_def beginDrain_def drainPending_def buildQueueSummaryLine_A Let_def)

lemma drainPass_notice_takes_item:
  assumes "mode q \<noteq> js ''collect''" "dropPolicy q = js ''summarize''" "0 < droppedCount q"
    and "items q = oldest # rest"
  shows "\<exists>notice. buildSummaryPrompt q = (Some notice, q\<lparr>droppedCount := 0, summaryLines := []\<rparr>)
           \<and> drainPass force q =
               (Send (oldest\<lparr>prompt := notice\<rparr>), force,
                q\<lparr>droppedCount := 0, summaryLines := [], items := rest\<rparr>)"
proof -
  obtain notice where n: "buildSummaryPrompt q = (Some notice, q\<lparr>droppedCount := 0, summaryLines := []\<rparr>)"
    using assms(2,3) by (simp add: buildSummaryPrompt_def Let_def)
  have "notice \<noteq> []"
    using n assms(2,3) by (auto simp: buildSummaryPrompt_def Let_def js_def split: if_splits)
  then have "drainPass force q =
               (Send (oldest\<lparr>prompt := notice\<rparr>), force,
                q\<lparr>droppedCount := 0, summaryLines := [], items := rest\<rparr>)"
    using assms(1,4) n by (simp add: drainPass_def truthy_def)
  then show ?thesis using n by blast
qed

lemma overflow_notice_text:
  "buildSummaryPrompt
     \<lparr>items = its, draining = d, lastEnqueuedAt = t, mode = m, debounceMs = db, cap = c,
      dropPolicy = js ''summarize'', droppedCount = 1, summaryLines = [js ''A'']\<rparr>
   = (Some (js ''[Queue overflow] Dropped 1 announce due to cap.'' @ LF @ js ''Summary:'' @ LF @
            js ''- A''),
      \<lparr>items = its, draining = d, lastEnqueuedAt = t, mode = m, debounceMs = db, cap = c,
      dropPolicy = js ''summarize'', droppedCount = 0, summaryLines = []\<rparr>)"
  by (simp add: buildSummaryPrompt_def showInt_def digitChar_def js_def Let_def)

text \<open>
  Claim C1, on the code. With capacity 2 and the policy \<open>"summarize"\<close> in the mode
  \<open>"followup"\<close>, the announces A, B, C are enqueued and the drain runs to its end. The
  first pass builds the overflow notice and sends it in place of the oldest queued item:
  B is shifted out of the sequence and its prompt is overwritten with the notice. The
  transport receives the notice and C; the payload of B is never delivered.
\<close>

theorem overflow_notice_replaces_oldest_item:
  "run [Enqueue (js ''k'') (announce ''A'' ''whatsapp'' ''+1'' None) (queueSettings ''followup'' 0 2 ''summarize'') 1,
        Schedule (js ''k''),
        Enqueue (js ''k'') (announce ''B'' ''whatsapp'' ''+1'' None) (queueSettings ''followup'' 0 2 ''summarize'') 2,
        Schedule (js ''k''),
        Enqueue (js ''k'') (announce ''C'' ''whatsapp'' ''+1'' None) (queueSettings ''followup'' 0 2 ''summarize'') 3,
        Schedule (js ''k''),
        DebounceElapsed (js ''k''), SendResolved (js ''k''),
        DebounceElapsed (js ''k''), SendResolved (js ''k'')] initialRuntime
   = Some \<lparr>queues = Map.empty, drains = [],
             sent = [(announce ''B'' ''whatsapp'' ''+1'' None)
                       \<lparr>prompt := js ''[Queue overflow] Dropped 1 announce due to cap.'' @ LF @
                                  js ''Summary:'' @ LF @ js ''- A''\<rparr>,
                     announce ''C'' ''whatsapp'' ''+1'' None]\<rparr>"
proof -
  let ?es = "[Enqueue (js ''k'') (announce ''A'' ''whatsapp'' ''+1'' None) (queueSettings ''followup'' 0 2 ''summarize'') 1,
        Schedule (js ''k''),
        Enqueue (js ''k'') (announce ''B'' ''whatsapp'' ''+1'' None) (queueSettings ''followup'' 0 2 ''summarize'') 2,
        Schedule (js ''k''),
        Enqueue (js ''k'') (announce ''C'' ''whatsapp'' ''+1'' None) (queueSettings ''followup'' 0 2 ''summarize'') 3,
        Schedule (js ''k'')]"
  let ?ds = "[DebounceElapsed (js ''k''), SendResolved (js ''k''),
        DebounceElapsed (js ''k''), SendResolved (js ''k'')]"
  have "run (?es @ ?ds) initialRuntime
     = Some \<lparr>queues = Map.empty, drains = [],
             sent = [(announce ''B'' ''whatsapp'' ''+1'' None)
                       \<lparr>prompt := js ''[Queue overflow] Dropped 1 announce due to cap.'' @ LF @
                                  js ''Summary:'' @ LF @ js ''- A''\<rparr>,
                     announce ''C'' ''whatsapp'' ''+1'' None]\<rparr>"
    unfolding run_append overflow_followup_enqueued
    using mode_literals
    by (simp add: drainPass_def shiftAndSend_def buildSummaryPrompt_def showInt_def digitChar_def
          LF_def js_def truthy_def drainPending_def endDrain_def drainFinally_def Let_def)
  then show ?thesis by simp
qed

theorem overflow_notice_replaces_oldest_item_witness:
  "\<exists>R. run [Enqueue (js ''k'') (announce ''A'' ''whatsapp'' ''+1'' None) (queueSettings ''followup'' 0 2 ''summarize'') 1,
        Schedule (js ''k''),
        Enqueue (js ''k'') (announce ''B'' ''whatsapp'' ''+1'' None) (queueSettings ''followup'' 0 2 ''summarize'') 2,
        Schedule (js ''k''),
        Enqueue (js ''k'') (announce ''C'' ''whatsapp'' ''+1'' None) (queueSettings ''followup'' 0 2 ''summarize'') 3,
        Schedule (js ''k''),
        DebounceElapsed (js ''k''), SendResolved (js ''k''),
        DebounceElapsed (js ''k''), SendResolved (js ''k'')] initialRuntime = Some R
     \<and> queues R (js ''k'') = None
     \<and> map prompt (sent R) =
           [js ''[Queue overflow] Dropped 1 announce due to cap.'' @ LF @ js ''Summary:'' @ LF @ js ''- A'',
            js ''C'']
     \<and> js ''B'' \<notin> set (map prompt (sent R))"
  unfolding overflow_notice_replaces_oldest_item
  by (simp add: announce_def js_def LF_def)

lemma overflow_collect_enqueued:
  "run [Enqueue (js ''k'') (announce ''A'' ''whatsapp'' ''+1'' None) (queueSettings ''collect'' 0 2 ''summarize'') 1,
        Schedule (js ''k''),
        Enqueue (js ''k'') (announce ''B'' ''whatsapp'' ''+1'' None) (queueSettings ''collect'' 0 2 ''summarize'') 2,
        Schedule (js ''k''),
        Enqueue (js ''k'') (announce ''C'' ''whatsapp'' ''+1'' None) (queueSettings ''collect'' 0 2 ''summarize'') 3,
        Schedule (js ''k''),
        Enqueue (js ''k'') (announce ''D'' ''whatsapp'' ''+2'' None) (queueSettings ''collect'' 0 2 ''summarize'') 4,
        Schedule (js ''k'')] initialRuntime
   = Some \<lparr>queues = [js ''k'' \<mapsto>
               \<lparr>items = [announce ''C'' ''whatsapp'' ''+1'' None, announce ''D'' ''whatsapp'' ''+2'' None],
                draining = True, lastEnqueuedAt = 4, mode = js ''collect'',
                debounceMs = 0, cap = 2, dropPolicy = js ''summarize'', droppedCount = 2,
                summaryLines = [js ''A'', js ''B'']\<rparr>],
             drains = [(js ''k'', AwaitDebounce, False)], sent = []\<rparr>"
  using mode_literals
  by (simp add: initialRuntime_def enqueueAnnounce_def getAnnounceQueue_def queueSettings_def
        scheduleAnnounceDrain_def beginDrain_def drainPending_def buildQueueSummaryLine_A Let_def)

lemma cross_C_D:
  "hasCrossChannelItems [announce ''C'' ''whatsapp'' ''+1'' None, announce ''D'' ''whatsapp'' ''+2'' None]"
  by (simp add: hasCrossChannelItems_def destKey_def orEmpty_def truthy_def announce_def js_def)

text \<open>
  Claim C5, on the code. With capacity 2 and the policy \<open>"summarize"\<close> in the mode
  \<open>"collect"\<close>, the announces A, B, C, D are enqueued, C and D for different
  recipients. The sequence is left as C, D with a dropped count of 2 and the summaries
  of A and B (lemma \<open>overflow_collect_enqueued\<close>). The drain then delivers C and D one
  by one without any notice, breaks, and is scheduled again; the new session clears the
  dropped count and the summaries, finds no item to carry the notice, and deletes the
  key. The dropped count has returned to zero and no overflow notice was delivered.
\<close>

theorem overflow_notice_lost_in_sticky_collect:
  "run [Enqueue (js ''k'') (announce ''A'' ''whatsapp'' ''+1'' None) (queueSettings ''collect'' 0 2 ''summarize'') 1,
        Schedule (js ''k''),
        Enqueue (js ''k'') (announce ''B'' ''whatsapp'' ''+1'' None) (queueSettings ''collect'' 0 2 ''summarize'') 2,
        Schedule (js ''k''),
        Enqueue (js ''k'') (announce ''C'' ''whatsapp'' ''+1'' None) (queueSettings ''collect'' 0 2 ''summarize'') 3,
        Schedule (js ''k''),
        Enqueue (js ''k'') (announce ''D'' ''whatsapp'' ''+2'' None) (queueSettings ''collect'' 0 2 ''summarize'') 4,
        Schedule (js ''k''),
        DebounceElapsed (js ''k''), SendResolved (js ''k''),
        DebounceElapsed (js ''k''), SendResolved (js ''k''),
        DebounceElapsed (js ''k''), DebounceElapsed (js ''k'')] initialRuntime
   = Some \<lparr>queues = Map.empty, drains = [],
             sent = [announce ''C'' ''whatsapp'' ''+1'' None, announce ''D'' ''whatsapp'' ''+2'' None]\<rparr>"
proof -
  let ?es = "[Enqueue (js ''k'') (announce ''A'' ''whatsapp'' ''+1'' None) (queueSettings ''collect'' 0 2 ''summarize'') 1,
        Schedule (js ''k''),
        Enqueue (js ''k'') (announce ''B'' ''whatsapp'' ''+1'' None) (queueSettings ''collect'' 0 2 ''summarize'') 2,
        Schedule (js ''k''),
        Enqueue (js ''k'') (announce ''C'' ''whatsapp'' ''+1'' None) (queueSettings ''collect'' 0 2 ''summarize'') 3,
        Schedule (js ''k''),
        Enqueue (js ''k'') (announce ''D'' ''whatsapp'' ''+2'' None) (queueSettings ''collect'' 0 2 ''summarize'') 4,
        Schedule (js ''k'')]"
  let ?ds = "[DebounceElapsed (js ''k''), SendResolved (js ''k''),
        DebounceElapsed (js ''k''), SendResolved (js ''k''),
        DebounceElapsed (js ''k''), DebounceElapsed (js ''k'')]"
  have e: "hasCrossChannelItems [] = False" by (simp add: hasCrossChannelItems_def)
  have "run (?es @ ?ds) initialRuntime
     = Some \<lparr>queues = Map.empty, drains = [],
             sent = [announce ''C'' ''whatsapp'' ''+1'' None, announce ''D'' ''whatsapp'' ''+2'' None]\<rparr>"
    unfolding run_append overflow_collect_enqueued
    using cross_C_D e
    by (simp add: drainPass_def shiftAndSend_def buildSummaryPrompt_def
          drainPending_def endDrain_def drainFinally_def scheduleAnnounceDrain_def beginDrain_def
          Let_def)
  then show ?thesis by simp
qed

theorem overflow_notice_lost_in_sticky_collect_witness:
  "\<exists>R. run [Enqueue (js ''k'') (announce ''A'' ''whatsapp'' ''+1'' None) (queueSettings ''collect'' 0 2 ''summarize'') 1,
        Schedule (js ''k''),
        Enqueue (js ''k'') (announce ''B'' ''whatsapp'' ''+1'' None) (queueSettings ''collect'' 0 2 ''summarize'') 2,
        Schedule (js ''k''),
        Enqueue (js ''k'') (announce ''C'' ''whatsapp'' ''+1'' None) (queueSettings ''collect'' 0 2 ''summarize'') 3,
        Schedule (js ''k''),
        Enqueue (js ''k'') (announce ''D'' ''whatsapp'' ''+2'' None) (queueSettings ''collect'' 0 2 ''summarize'') 4,
        Schedule (js ''k''),
        DebounceElapsed (js ''k''), SendResolved (js ''k''),
        DebounceElapsed (js ''k''), SendResolved (js ''k''),
        DebounceElapsed (js ''k''), DebounceElapsed (js ''k'')] initialRuntime = Some R
     \<and> queues R (js ''k'') = None
     \<and> map prompt (sent R) = [js ''C'', js ''D'']"
  unfolding overflow_notice_lost_in_sticky_collect
  by (simp add: announce_def)

section \<open>The collect pass\<close>



lemma buildSummaryPrompt_cases:
  "buildSummaryPrompt q =
     (if dropPolicy q \<noteq> js ''summarize'' \<or> droppedCount q \<le> 0 then (None, q)
      else (fst (buildSummaryPrompt q), q\<lparr>droppedCount := 0, summaryLines := []\<rparr>))"
  by (simp add: buildSummaryPrompt_def Let_def)







lemma triggerMessage_noTrailingSpace:
  "noTrailingSpace (triggerMessage taskLabel statusLabel reply statsLine)"
proof -
  let ?ls = "[js ''A background task '' @ [0x22] @ taskLabel @ [0x22] @ js '' just '' @ statusLabel @ js ''.'',
        [],
        js ''Findings:'',
        (if truthy reply then the reply else js ''(no output)''),
        [],
        statsLine,
        [],
        js ''Summarize this naturally for the user. Keep it brief (1-2 sentences). Flow it into the conversation naturally.'',
        js ''Do not mention technical details like tokens, stats, or that this was a background task.'',
        js ''You can respond with NO_REPLY if no announcement is needed (e.g., internal task with no user-facing result).'']"
  have l: "last ?ls = js ''You can respond with NO_REPLY if no announcement is needed (e.g., internal task with no user-facing result).''"
    by simp
  have n: "last ?ls \<noteq> []" unfolding l by (simp add: js_def)
  have e: "last (last ?ls) = 0x2E" unfolding l by (simp add: js_def)
  have "?ls \<noteq> []" by simp
  then have "joinWith LF ?ls \<noteq> [] \<and> last (joinWith LF ?ls) = last (last ?ls)"
    using n by (rule joinWith_last)
  then have "joinWith LF ?ls \<noteq> [] \<and> last (joinWith LF ?ls) = 0x2E" unfolding e .
  then show ?thesis
    unfolding noTrailingSpace_def triggerMessage_def by (simp add: isWhiteSpace_def)
qed








section \<open>The cross-destination switch\<close>










end
